theory Spec2Isabelle
  imports Complex_Main "HOL-Library.Char_ord" "HOL-Library.List_Lexorder"
    "HOL-Library.Sublist" "HOL-Library.Multiset" "HOL-Library.AList"
begin

chapter \<open>Grimoire: the content-to-site pipeline of grimoire.py\<close>

text \<open>
  A shallow embedding of the parts of \<^verbatim>\<open>src/grimoire.py\<close> that discover Markdown
  documents, derive page metadata, build the category tree and render the navigation.

  Conventions of the embedding.
  \<^item> A Python \<^verbatim>\<open>str\<close> is a \<^typ>\<open>string\<close>. The character predicates and case
    conversions below are those of Python on ASCII text; a character outside ASCII is
    treated as an uncased symbol that is neither whitespace, digit nor letter, so the
    development speaks about ASCII names and documents.
  \<^item> A \<^verbatim>\<open>pathlib.Path\<close> is the list of its parts; the content directory is the
    list of parts of the path object handed to the scanner (it is not resolved), and a
    file below it is given by its parts relative to the content directory.
  \<^item> A \<^verbatim>\<open>dict\<close> whose insertion order is observable is an association list
    updated with \<^const>\<open>AList.update\<close>; configuration lookups are maps.
  \<^item> An exception is a value of type \<open>error\<close>; a function that can raise returns
    \<open>error + 'a\<close>.
  \<^item> \<^verbatim>\<open>print\<close> appends a line to the \<open>stdout\<close> field of the converter state.
\<close>

section \<open>Python string operations on ASCII text\<close>

definition upper_letters :: string where
  "upper_letters = ''ABCDEFGHIJKLMNOPQRSTUVWXYZ''"

definition lower_letters :: string where
  "lower_letters = ''abcdefghijklmnopqrstuvwxyz''"

text \<open>\<^verbatim>\<open>str.isspace\<close> on one ASCII character: tab, LF, VT, FF, CR, FS, GS, RS, US, space.\<close>

definition isspace :: "char \<Rightarrow> bool" where
  "isspace c = (c \<in> set [CHR 0x09, CHR 0x0A, CHR 0x0B, CHR 0x0C, CHR 0x0D,
                           CHR 0x1C, CHR 0x1D, CHR 0x1E, CHR 0x1F, CHR '' ''])"

definition isdigit :: "char \<Rightarrow> bool" where
  "isdigit c = (c \<in> set ''0123456789'')"

definition isupper_char :: "char \<Rightarrow> bool" where
  "isupper_char c = (c \<in> set upper_letters)"

definition islower_char :: "char \<Rightarrow> bool" where
  "islower_char c = (c \<in> set lower_letters)"

definition isalnum :: "char \<Rightarrow> bool" where
  "isalnum c = (isupper_char c \<or> islower_char c \<or> isdigit c)"

definition lower_char :: "char \<Rightarrow> char" where
  "lower_char c = (case map_of (zip upper_letters lower_letters) c of Some d \<Rightarrow> d | None \<Rightarrow> c)"

definition upper_char :: "char \<Rightarrow> char" where
  "upper_char c = (case map_of (zip lower_letters upper_letters) c of Some d \<Rightarrow> d | None \<Rightarrow> c)"

text \<open>\<^verbatim>\<open>s.lower()\<close>, \<^verbatim>\<open>s.upper()\<close>, \<^verbatim>\<open>s.capitalize()\<close>.\<close>

definition lower :: "string \<Rightarrow> string" where
  "lower s = map lower_char s"

definition upper :: "string \<Rightarrow> string" where
  "upper s = map upper_char s"

definition capitalize :: "string \<Rightarrow> string" where
  "capitalize s = (case s of [] \<Rightarrow> [] | c # cs \<Rightarrow> upper_char c # map lower_char cs)"

text \<open>\<^verbatim>\<open>s.isupper()\<close>: at least one cased character, and no lowercase one.\<close>

definition isupper :: "string \<Rightarrow> bool" where
  "isupper s = (list_ex isupper_char s \<and> list_all (\<lambda>c. \<not> islower_char c) s)"

text \<open>
  \<^verbatim>\<open>s.split()\<close>: the maximal runs of non-whitespace characters. \<open>split_from w s\<close>
  scans \<open>s\<close> with the word read so far in \<open>w\<close>.
\<close>

fun split_from :: "string \<Rightarrow> string \<Rightarrow> string list" where
  "split_from w [] = (if w = [] then [] else [w])"
| "split_from w (c # cs) =
     (if isspace c then (if w = [] then split_from [] cs else w # split_from [] cs)
      else split_from (w @ [c]) cs)"

definition split :: "string \<Rightarrow> string list" where
  "split s = split_from [] s"

text \<open>\<^verbatim>\<open>s.split(sep)\<close> for a one-character separator: empty fields are kept.\<close>

fun split_on_from :: "char \<Rightarrow> string \<Rightarrow> string \<Rightarrow> string list" where
  "split_on_from sep w [] = [w]"
| "split_on_from sep w (c # cs) =
     (if c = sep then w # split_on_from sep [] cs else split_on_from sep (w @ [c]) cs)"

definition split_on :: "char \<Rightarrow> string \<Rightarrow> string list" where
  "split_on sep s = split_on_from sep [] s"

text \<open>\<^verbatim>\<open>sep.join(xs)\<close>.\<close>

fun join :: "string \<Rightarrow> string list \<Rightarrow> string" where
  "join sep [] = []"
| "join sep [x] = x"
| "join sep (x # y # ys) = x @ sep @ join sep (y # ys)"

text \<open>\<^verbatim>\<open>s.strip()\<close> and \<^verbatim>\<open>s.strip(chars)\<close>.\<close>

definition strip_where :: "(char \<Rightarrow> bool) \<Rightarrow> string \<Rightarrow> string" where
  "strip_where P s = rev (dropWhile P (rev (dropWhile P s)))"

definition strip :: "string \<Rightarrow> string" where
  "strip s = strip_where isspace s"

definition strip_chars :: "string \<Rightarrow> string \<Rightarrow> string" where
  "strip_chars chars s = strip_where (\<lambda>c. c \<in> set chars) s"

text \<open>\<^verbatim>\<open>s.replace(a, b)\<close> where \<open>a\<close> is one character.\<close>

definition replace :: "char \<Rightarrow> string \<Rightarrow> string \<Rightarrow> string" where
  "replace a b s = concat (map (\<lambda>c. if c = a then b else [c]) s)"

definition startswith :: "string \<Rightarrow> string \<Rightarrow> bool" where
  "startswith s p = (take (length p) s = p)"

text \<open>\<^verbatim>\<open>str(n)\<close> for a non-negative integer.\<close>

fun str_nat :: "nat \<Rightarrow> string" where
  "str_nat n = (if n < 10 then [''0123456789'' ! n]
                else str_nat (n div 10) @ [''0123456789'' ! (n mod 10)])"

section \<open>Display name handling\<close>

definition LOWERCASE_WORDS :: "string set" where
  "LOWERCASE_WORDS = {''and'', ''or'', ''the'', ''a'', ''an'', ''in'', ''on'', ''at'',
                      ''to'', ''for'', ''of'', ''with''}"

text \<open>The separator class \<^verbatim>\<open>[\-_.\s]\<close> of the number-prefix pattern.\<close>

definition prefix_sep :: "char \<Rightarrow> bool" where
  "prefix_sep c = (c = CHR ''-'' \<or> c = CHR ''_'' \<or> c = CHR ''.'' \<or> isspace c)"

text \<open>
  \<^verbatim>\<open>re.sub(r'^\d+[\-_.\s]+', '', name)\<close>. Both quantifiers are greedy and the two
  character classes are disjoint, so the pattern matches at the start of the name exactly
  when the longest run of digits is non-empty and is followed by at least one separator;
  the match is then that run of digits with the longest run of separators after it.
\<close>

definition strip_number_prefix :: "string \<Rightarrow> string" where
  "strip_number_prefix name =
     (let rest = dropWhile isdigit name
      in if takeWhile isdigit name \<noteq> [] \<and> takeWhile prefix_sep rest \<noteq> []
         then dropWhile prefix_sep rest else name)"

text \<open>
  The loop of \<^verbatim>\<open>capitalize_with_acronyms\<close>: \<open>i\<close> is the index \<^verbatim>\<open>enumerate\<close>
  gives the word, \<open>result\<close> the list appended to.
\<close>

fun capitalize_loop :: "string set \<Rightarrow> nat \<Rightarrow> string list \<Rightarrow> string list \<Rightarrow> string list" where
  "capitalize_loop acros i [] result = result"
| "capitalize_loop acros i (word # words) result =
     (let word_lower = lower word
      in capitalize_loop acros (Suc i) words
           (result @
             [if word_lower \<in> acros then upper word
              else if 2 \<le> length word \<and> isupper word then word
              else if i = 0 \<or> word_lower \<notin> LOWERCASE_WORDS then capitalize word
              else word_lower]))"

definition capitalize_with_acronyms :: "string \<Rightarrow> string set \<Rightarrow> string" where
  "capitalize_with_acronyms text acros = join '' '' (capitalize_loop acros 0 (split text) [])"

definition format_display_name ::
  "string \<Rightarrow> bool \<Rightarrow> string set \<Rightarrow> (string \<rightharpoonup> string) \<Rightarrow> string" where
  "format_display_name name strip_enabled acros overrides =
     (if \<not> strip_enabled then name
      else case overrides name of Some v \<Rightarrow> v
      | None \<Rightarrow>
          (let stripped = strip_number_prefix name
           in case overrides stripped of Some v \<Rightarrow> v
              | None \<Rightarrow>
                  (let display = replace (CHR ''_'') '' '' (replace (CHR ''-'') '' '' stripped)
                   in capitalize_with_acronyms display acros)))"

section \<open>Document loader\<close>

datatype error = TypeError | AttributeError | IndexError | KeyError | OSError

text \<open>
  What \<^verbatim>\<open>yaml.safe_load\<close> gives for a frontmatter block: it raises, or it returns a
  mapping (a falsy result is replaced by the empty mapping by \<^verbatim>\<open>or {}\<close>), or it
  returns some other truthy value (a list, a scalar). Frontmatter values are strings.
\<close>

text \<open>
  The lines the program prints, one constructor for each \<^verbatim>\<open>print\<close> statement of the
  modelled code, carrying the values its f-string interpolates (the text of a caught
  exception is represented by the exception).
\<close>

datatype line =
    Frontmatter_parsing_error
  | Error_processing "string list" error
  | Content_directory_not_found "string list"
  | Generating_documentation_site
  | No_markdown_files_found
  | Banner string "string list" string string
  | Done_generated nat

datatype yaml_result = Yaml_raises | Yaml_mapping "(string \<times> string) list" | Yaml_other

text \<open>
  The collaborators of the loader: the YAML parser, the Markdown conversion followed by
  \<^verbatim>\<open>fix_prism_language_classes\<close>, and the file system as the scanner sees it:
  whether the content directory exists, the paths \<^verbatim>\<open>content_dir.rglob('*.md')\<close>
  yields (relative to the content directory, in enumeration order), and the text of a
  file (\<open>None\<close> when opening or decoding it raises).
\<close>

record env =
  yaml_safe_load :: "string \<Rightarrow> yaml_result"
  md_convert :: "string \<Rightarrow> string"
  dir_exists :: bool
  rglob_md :: "string list list"
  read_text :: "string list \<Rightarrow> string option"

text \<open>\<^verbatim>\<open>content.split('---', 2)\<close> for a content that starts with \<^verbatim>\<open>---\<close>: the
  first field is empty; \<open>split_dashes\<close> cuts the remainder at its first \<^verbatim>\<open>---\<close>.\<close>

fun split_dashes :: "string \<Rightarrow> string \<Rightarrow> (string \<times> string) option" where
  "split_dashes w [] = None"
| "split_dashes w (c # cs) =
     (if startswith (c # cs) ''---'' then Some (w, drop 3 (c # cs))
      else split_dashes (w @ [c]) cs)"

text \<open>One \<^verbatim>\<open>% Key: Value\<close> line: the body of the \<^verbatim>\<open>if line.startswith('%')\<close>
  branch, as the update it makes to the frontmatter dictionary.\<close>

definition percent_entry :: "string \<Rightarrow> (string \<times> string) option" where
  "percent_entry line =
     (let line_content = strip (drop 1 line)
      in if CHR '':'' \<in> set line_content
         then (let key = takeWhile (\<lambda>c. c \<noteq> CHR '':'') line_content;
                   val = drop 1 (dropWhile (\<lambda>c. c \<noteq> CHR '':'') line_content)
               in Some (replace (CHR '' '') ''_'' (lower (strip key)), strip val))
         else None)"

text \<open>The \<^verbatim>\<open>for i, line in enumerate(lines)\<close> loop with its \<^verbatim>\<open>break\<close>; the state is
  the dictionary and \<^verbatim>\<open>content_start\<close>.\<close>

fun percent_loop ::
  "nat \<Rightarrow> string list \<Rightarrow> (string \<times> string) list \<times> nat \<Rightarrow> (string \<times> string) list \<times> nat" where
  "percent_loop i [] (frontmatter, content_start) = (frontmatter, content_start)"
| "percent_loop i (line # lines) (frontmatter, content_start) =
     (if startswith line ''%''
      then percent_loop (Suc i) lines
             ((case percent_entry line of
                 Some (key, val) \<Rightarrow> AList.update key val frontmatter
               | None \<Rightarrow> frontmatter), i + 1)
      else (frontmatter, content_start))"

text \<open>
  \<^verbatim>\<open>parse_frontmatter\<close>: the frontmatter, the Markdown body and the lines printed.
  The frontmatter is \<open>None\<close> when the YAML block parsed to a truthy value that is not
  a mapping (the caller's \<^verbatim>\<open>frontmatter.get\<close> then raises).
\<close>

definition parse_frontmatter ::
  "('a env_scheme) \<Rightarrow> string \<Rightarrow> (string \<times> string) list option \<times> string \<times> line list" where
  "parse_frontmatter e content =
     (if startswith content ''---'' then
        (case split_dashes [] (drop 3 content) of
           None \<Rightarrow> (Some [], content, [])
         | Some (block, rest) \<Rightarrow>
             (case yaml_safe_load e block of
                Yaml_raises \<Rightarrow> (Some [], content, [Frontmatter_parsing_error])
              | Yaml_mapping m \<Rightarrow> (Some m, strip rest, [])
              | Yaml_other \<Rightarrow> (None, strip rest, [])))
      else if startswith content ''%'' then
        (let lines = split_on (CHR 0x0A) content;
             (frontmatter, content_start) = percent_loop 0 lines ([], 0)
         in (Some frontmatter, strip (join [CHR 0x0A] (drop content_start lines)), []))
      else (Some [], content, []))"

text \<open>\<^verbatim>\<open>calculate_reading_time\<close>. \<^verbatim>\<open>words / 200\<close> is a float division and
  \<^verbatim>\<open>round\<close> rounds to the nearest integer, ties to the even one. The quotient of a word
  count below \<open>2^53\<close> by 200 is at least \<open>1/200\<close> away from a tie unless it is one
  exactly, so the float result is the rounding of the exact quotient, computed here on
  integers.\<close>

definition round_half_even_div :: "int \<Rightarrow> int \<Rightarrow> int" where
  "round_half_even_div a b =
     (let q = a div b; r = a mod b
      in if 2 * r < b then q else if b < 2 * r then q + 1
         else if even q then q else q + 1)"

definition calculate_reading_time :: "string \<Rightarrow> int" where
  "calculate_reading_time content =
     (let words = int (length (split content)) in max 1 (round_half_even_div words 200))"

subsection \<open>Paths\<close>

text \<open>\<^verbatim>\<open>PurePath.suffix\<close>, \<^verbatim>\<open>stem\<close> and \<^verbatim>\<open>with_suffix\<close> on the final component:
  the suffix starts at the last dot, provided that dot is neither the first nor the
  last character of the name.\<close>

definition suffix_of :: "string \<Rightarrow> string" where
  "suffix_of name =
     (let after = rev (takeWhile (\<lambda>c. c \<noteq> CHR ''.'') (rev name))
      in if CHR ''.'' \<in> set name \<and> after \<noteq> [] \<and> length after + 1 < length name
         then CHR ''.'' # after else [])"

definition stem :: "string \<Rightarrow> string" where
  "stem name = take (length name - length (suffix_of name)) name"

definition with_suffix :: "string list \<Rightarrow> string \<Rightarrow> string list" where
  "with_suffix path new = butlast path @ [stem (last path) @ new]"

text \<open>\<^verbatim>\<open>str(path)\<close> on a POSIX system.\<close>

definition path_str :: "string list \<Rightarrow> string" where
  "path_str path = join ''/'' path"

definition generate_page_id :: "string list \<Rightarrow> string" where
  "generate_page_id rel =
     replace (CHR 0x5C) ''-'' (replace (CHR ''/'') ''-'' (path_str (with_suffix rel [])))"

definition generate_page_url :: "string list \<Rightarrow> string" where
  "generate_page_url rel =
     replace (CHR 0x5C) ''/'' (path_str (with_suffix rel ''.html''))"

subsection \<open>Configuration, pages and the converter state\<close>

record config =
  strip_prefix :: bool
  acronyms :: "string set"
  display_overrides :: "string \<rightharpoonup> string"
  exclude_folders :: "string list"
  show_bookmarks :: bool
  category_icons :: "string \<rightharpoonup> string"
  default_icon :: string

record page =
  page_id :: string
  url :: string
  title :: string
  icon :: string
  levels_raw :: "string list"
  levels :: "string list"
  depth :: nat
  category :: string
  html_content :: string
  reading_time :: int
  file_path :: "string list"
  relative_path :: "string list"
  frontmatter :: "(string \<times> string) list"

text \<open>The converter object, with the lines printed so far.\<close>

record converter =
  conf :: config
  all_pages :: "page list"
  categories :: "(string \<times> page list) list"
  stdout :: "line list"

definition print :: "line list \<Rightarrow> converter \<Rightarrow> converter" where
  "print ls self = self\<lparr>stdout := stdout self @ ls\<rparr>"

record hierarchy =
  h_levels_raw :: "string list"
  h_levels :: "string list"
  h_category :: string
  h_depth :: nat

definition get_page_hierarchy :: "config \<Rightarrow> string list \<Rightarrow> hierarchy" where
  "get_page_hierarchy cfg rel =
     (let parts = butlast rel;
          lvls = map (\<lambda>p. format_display_name p (strip_prefix cfg) (acronyms cfg)
                              (display_overrides cfg)) parts
      in \<lparr>h_levels_raw = parts, h_levels = lvls,
          h_category = (if lvls = [] then ''General'' else join '' > '' lvls),
          h_depth = length lvls\<rparr>)"

text \<open>\<^verbatim>\<open>d.get(k) or ...\<close>: a missing or empty value falls through.\<close>

definition get_truthy :: "(string \<times> string) list \<Rightarrow> string \<Rightarrow> string option" where
  "get_truthy d k = (case map_of d k of Some v \<Rightarrow> (if v = [] then None else Some v) | None \<Rightarrow> None)"

text \<open>\<^verbatim>\<open>process_markdown_file\<close>: the page, or the exception its \<^verbatim>\<open>try\<close> block
  caught (the function then returns \<^verbatim>\<open>None\<close>), and the lines printed.\<close>

definition process_markdown_file ::
  "('a env_scheme) \<Rightarrow> config \<Rightarrow> string list \<Rightarrow> string list \<Rightarrow> (error + page) \<times> line list" where
  "process_markdown_file e cfg root_dir rel =
     (case read_text e rel of
        None \<Rightarrow> (Inl OSError, [Error_processing (root_dir @ rel) OSError])
      | Some content \<Rightarrow>
          (case parse_frontmatter e content of
             (None, markdown_content, printed) \<Rightarrow>
               (Inl AttributeError, printed @ [Error_processing (root_dir @ rel) AttributeError])
           | (Some fm, markdown_content, printed) \<Rightarrow>
               (let h = get_page_hierarchy cfg rel
                in (Inr \<lparr>page_id = generate_page_id rel,
                        url = generate_page_url rel,
                        title = (case get_truthy fm ''display_name'' of Some t \<Rightarrow> t
                                 | None \<Rightarrow> (case get_truthy fm ''title'' of Some t \<Rightarrow> t
                                 | None \<Rightarrow> format_display_name (stem (last rel)) (strip_prefix cfg)
                                             (acronyms cfg) (display_overrides cfg))),
                        icon = (case map_of fm ''icon'' of Some v \<Rightarrow> v | None \<Rightarrow> []),
                        levels_raw = h_levels_raw h,
                        levels = h_levels h,
                        depth = h_depth h,
                        category = h_category h,
                        html_content = md_convert e markdown_content,
                        reading_time = calculate_reading_time markdown_content,
                        file_path = root_dir @ rel,
                        relative_path = rel,
                        frontmatter = fm\<rparr>, printed))))"

section \<open>Content scanner\<close>

text \<open>The nested \<^verbatim>\<open>is_valid_name\<close>.\<close>

definition is_valid_name :: "string \<Rightarrow> bool" where
  "is_valid_name name =
     (let name_without_ext =
            (if CHR ''.'' \<in> set name
             then rev (drop 1 (dropWhile (\<lambda>c. c \<noteq> CHR ''.'') (rev name))) else name);
          stripped = strip_chars ''-_=. '' name_without_ext
      in stripped \<noteq> [] \<and> list_ex isalnum stripped)"

text \<open>The four tests of the loop over \<^verbatim>\<open>content_dir.rglob('*.md')\<close>, for the file with
  parts \<open>content_dir @ rel\<close>: \<open>True\<close> when the file is appended to \<^verbatim>\<open>md_files\<close>.\<close>

definition keep_md_file :: "string list \<Rightarrow> string list \<Rightarrow> string list \<Rightarrow> bool" where
  "keep_md_file excl content_dir rel =
     (if last rel = ''index.md'' then False
      else if list_ex (\<lambda>excluded. excluded \<in> set (content_dir @ rel)) excl then False
      else if \<not> is_valid_name (stem (last rel)) then False
      else if list_ex (\<lambda>part. \<not> is_valid_name part) (butlast rel) then False
      else True)"

text \<open>The loop over the sorted files: the state is the page list, the converter's
  category index and the lines printed.\<close>

fun scan_loop ::
  "('a env_scheme) \<Rightarrow> string list \<Rightarrow> string list list \<Rightarrow> page list \<times> converter
     \<Rightarrow> page list \<times> converter" where
  "scan_loop e content_dir [] (pages, self) = (pages, self)"
| "scan_loop e content_dir (md_file # md_files) (pages, self) =
     (case process_markdown_file e (conf self) content_dir md_file of
        (Inl err, printed) \<Rightarrow> scan_loop e content_dir md_files (pages, print printed self)
      | (Inr page_data, printed) \<Rightarrow>
          (let level1 = (case levels_raw page_data of [] \<Rightarrow> ''General'' | l # ls \<Rightarrow> l);
               bucket = (case map_of (categories self) level1 of None \<Rightarrow> [] | Some b \<Rightarrow> b);
               self' = (print printed self)
                          \<lparr>categories := AList.update level1 (bucket @ [page_data]) (categories self)\<rparr>
           in scan_loop e content_dir md_files (pages @ [page_data], self')))"

definition scan_directory ::
  "('a env_scheme) \<Rightarrow> string list \<Rightarrow> converter \<Rightarrow> page list \<times> converter" where
  "scan_directory e content_dir self =
     (if \<not> dir_exists e then ([], print [Content_directory_not_found content_dir] self)
      else (let md_files = filter (keep_md_file (exclude_folders (conf self)) content_dir) (rglob_md e)
            in scan_loop e content_dir (sort md_files) ([], self)))"

section \<open>Category tree and navigation\<close>

text \<open>
  The tree \<^verbatim>\<open>build_tree\<close> makes is a dictionary whose values are of three kinds: a
  display name (under \<^verbatim>\<open>'__display__'\<close>), a list of pages (under
  \<^verbatim>\<open>'__pages__'\<close>) and a nested dictionary (under a raw folder name). Folder names
  share the key space with the two reserved keys, so the model keeps the dictionary
  untyped, as the code has it.
\<close>

datatype val = Display string | Pages "page list" | Node "(string \<times> val) list"

definition display_key :: string where
  "display_key = ''__display__''"

definition pages_key :: string where
  "pages_key = ''__pages__''"

text \<open>\<^verbatim>\<open>k in current\<close>: a key of a dictionary, an element of a list (a string never
  equals a page), a substring of a string.\<close>

definition contains :: "val \<Rightarrow> string \<Rightarrow> bool" where
  "contains current k =
     (case current of Node d \<Rightarrow> k \<in> fst ` set d | Pages ps \<Rightarrow> False | Display s \<Rightarrow> sublist k s)"

text \<open>\<^verbatim>\<open>current['__pages__'].append(page)\<close>.\<close>

definition append_page :: "val \<Rightarrow> page \<Rightarrow> error + val" where
  "append_page current page =
     (case current of
        Node d \<Rightarrow>
          (case map_of d pages_key of
             None \<Rightarrow> Inl KeyError
           | Some (Pages ps) \<Rightarrow> Inr (Node (AList.update pages_key (Pages (ps @ [page])) d))
           | Some _ \<Rightarrow> Inl AttributeError)
      | _ \<Rightarrow> Inl TypeError)"

text \<open>
  The inner loop \<^verbatim>\<open>for i, level_raw in enumerate(levels_raw)\<close> followed by the append,
  started at \<open>current\<close>; it returns \<open>current\<close> as the in-place updates leave it. The
  right-hand side \<^verbatim>\<open>levels[i]\<close> of the assignment is evaluated before the store.
\<close>

fun walk :: "val \<Rightarrow> nat \<Rightarrow> string list \<Rightarrow> string list \<Rightarrow> page \<Rightarrow> error + val" where
  "walk current i [] lvls page = append_page current page"
| "walk current i (level_raw # rest) lvls page =
     (if \<not> contains current level_raw then
        (if length lvls \<le> i then Inl IndexError
         else case current of
                Node d \<Rightarrow>
                  (case walk (Node [(display_key, Display (lvls ! i)), (pages_key, Pages [])])
                          (Suc i) rest lvls page of
                     Inl err \<Rightarrow> Inl err
                   | Inr child \<Rightarrow> Inr (Node (AList.update level_raw child d)))
              | _ \<Rightarrow> Inl TypeError)
      else
        (case current of
           Node d \<Rightarrow>
             (case map_of d level_raw of
                None \<Rightarrow> Inl KeyError
              | Some next \<Rightarrow>
                  (case walk next (Suc i) rest lvls page of
                     Inl err \<Rightarrow> Inl err
                   | Inr child \<Rightarrow> Inr (Node (AList.update level_raw child d))))
         | _ \<Rightarrow> Inl TypeError))"

text \<open>The body of \<^verbatim>\<open>for page in pages\<close>.\<close>

definition add_page :: "val \<Rightarrow> page \<Rightarrow> error + val" where
  "add_page tree page =
     (if levels_raw page = [] then
        (case tree of
           Node d \<Rightarrow>
             append_page
               (if pages_key \<notin> fst ` set d then Node (AList.update pages_key (Pages []) d)
                else tree) page
         | _ \<Rightarrow> Inl TypeError)
      else walk tree 0 (levels_raw page) (levels page) page)"

fun build_loop :: "page list \<Rightarrow> val \<Rightarrow> error + val" where
  "build_loop [] tree = Inr tree"
| "build_loop (page # pages) tree =
     (case add_page tree page of Inl err \<Rightarrow> Inl err | Inr tree' \<Rightarrow> build_loop pages tree')"

definition build_tree :: "page list \<Rightarrow> error + val" where
  "build_tree pages = build_loop pages (Node [])"

subsection \<open>Rendering\<close>

text \<open>\<^verbatim>\<open>html.escape\<close>.\<close>

definition html_escape :: "string \<Rightarrow> string" where
  "html_escape s =
     concat (map (\<lambda>c. if c = CHR ''&'' then ''&amp;'' else if c = CHR ''<'' then ''&lt;''
                       else if c = CHR ''>'' then ''&gt;'' else if c = CHR 0x22 then ''&quot;''
                       else if c = CHR 0x27 then ''&#x27;'' else [c]) s)"

text \<open>\<^verbatim>\<open>name.lower().replace(' ', '-').replace('&', 'and')\<close>.\<close>

definition slug :: "string \<Rightarrow> string" where
  "slug name = replace (CHR ''&'') ''and'' (replace (CHR '' '') ''-'' (lower name))"

definition default_icons :: "(string \<times> string) list" where
  "default_icons =
     [(''getting started'', ''fas fa-rocket''), (''getting-started'', ''fas fa-rocket''),
      (''guides'', ''fas fa-book''), (''tutorials'', ''fas fa-graduation-cap''),
      (''api'', ''fas fa-plug''), (''api reference'', ''fas fa-plug''),
      (''examples'', ''fas fa-code''), (''tools'', ''fas fa-tools''),
      (''reference'', ''fas fa-bookmark''), (''configuration'', ''fas fa-cog''),
      (''deployment'', ''fas fa-rocket''), (''security'', ''fas fa-shield-alt'')]"

fun first_hit :: "(string \<rightharpoonup> string) \<Rightarrow> string list \<Rightarrow> string option" where
  "first_hit m [] = None"
| "first_hit m (k # ks) = (case m k of Some v \<Rightarrow> Some v | None \<Rightarrow> first_hit m ks)"

definition get_category_icon :: "config \<Rightarrow> string \<Rightarrow> string" where
  "get_category_icon cfg cat =
     (let category_lower = lower cat;
          category_stripped = replace (CHR ''-'') '' '' (strip_number_prefix category_lower);
          category_hyphen = strip_number_prefix category_lower
      in case first_hit (category_icons cfg)
                [category_lower, category_stripped, category_hyphen, cat] of
           Some v \<Rightarrow> v
         | None \<Rightarrow>
             (case first_hit (map_of default_icons) [category_stripped, category_hyphen] of
                Some v \<Rightarrow> v
              | None \<Rightarrow> default_icon cfg))"

text \<open>
  The markup is emitted as a sequence of template instances: one constructor for each
  f-string the renderer appends, carrying the values the f-string interpolates. A page
  link carries its \<^verbatim>\<open>href\<close>, its indent class, the page id, the escaped title and
  whether the bookmark button is present.
\<close>

datatype nav_part =
    Category_open string string string
  | Category_close
  | Subcategory_open string string
  | Subcategory_close
  | Deep_open nat string string
  | Deep_close
  | Nav_item string string string string bool
  | Root_item string string string bool

text \<open>\<^verbatim>\<open>{k: v for k, v in sorted(node.items()) if not k.startswith('__')}\<close>; the keys of
  a dictionary are distinct, so the sort compares keys only.\<close>

definition subfolders :: "(string \<times> val) list \<Rightarrow> (string \<times> val) list" where
  "subfolders d = filter (\<lambda>kv. \<not> startswith (fst kv) ''__'') (sort_key fst d)"

text \<open>\<^verbatim>\<open>sorted(node.get('__pages__', []), key=lambda p: p['title'])\<close>: iterating a
  non-empty dictionary or string gives strings, which the key function cannot index.\<close>

definition sorted_pages :: "(string \<times> val) list \<Rightarrow> error + page list" where
  "sorted_pages d =
     (case map_of d pages_key of
        None \<Rightarrow> Inr []
      | Some (Pages ps) \<Rightarrow> Inr (sort_key title ps)
      | Some (Node c) \<Rightarrow> (if c = [] then Inr [] else Inl TypeError)
      | Some (Display s) \<Rightarrow> (if s = [] then Inr [] else Inl TypeError))"

text \<open>\<^verbatim>\<open>html.escape(folder_data.get('__display__', folder_raw))\<close>.\<close>

definition escaped_display :: "string \<Rightarrow> val \<Rightarrow> error + string" where
  "escaped_display folder_raw folder_data =
     (case folder_data of
        Node fd \<Rightarrow>
          (case map_of fd display_key of
             None \<Rightarrow> Inr (html_escape folder_raw)
           | Some (Display s) \<Rightarrow> Inr (html_escape s)
           | Some _ \<Rightarrow> Inl AttributeError)
      | _ \<Rightarrow> Inl AttributeError)"

text \<open>The parts of a loop whose iterations may raise: the first exception, or all parts.\<close>

fun sequence :: "(error + 'a list) list \<Rightarrow> error + 'a list" where
  "sequence [] = Inr []"
| "sequence (x # xs) =
     (case x of Inl err \<Rightarrow> Inl err
      | Inr a \<Rightarrow> (case sequence xs of Inl err \<Rightarrow> Inl err | Inr b \<Rightarrow> Inr (a @ b)))"

function render_sublevel ::
  "bool \<Rightarrow> val \<Rightarrow> string \<Rightarrow> nat \<Rightarrow> string \<Rightarrow> error + nav_part list" where
  "render_sublevel bookmarks (Node d) parent_id level_depth url_prefix =
     (case sorted_pages d of
        Inl err \<Rightarrow> Inl err
      | Inr pages \<Rightarrow>
          (case sequence
                  (map (\<lambda>kv.
                          (let folder_id = parent_id @ ''-'' @ slug (fst kv)
                           in case escaped_display (fst kv) (snd kv) of
                                Inl err \<Rightarrow> Inl err
                              | Inr folder_display \<Rightarrow>
                                  (case render_sublevel bookmarks (snd kv) folder_id
                                          (Suc level_depth) url_prefix of
                                     Inl err \<Rightarrow> Inl err
                                   | Inr inner \<Rightarrow>
                                       Inr (if level_depth = 1
                                            then [Subcategory_open folder_id folder_display]
                                                   @ inner @ [Subcategory_close]
                                            else [Deep_open level_depth folder_id folder_display]
                                                   @ inner @ [Deep_close]))))
                       (subfolders d)) of
             Inl err \<Rightarrow> Inl err
           | Inr folder_parts \<Rightarrow>
               Inr (folder_parts @
                    map (\<lambda>page. Nav_item (url_prefix @ url page)
                                   (if 0 < level_depth then ''nav-item-depth-'' @ str_nat level_depth
                                    else ''nav-item'')
                                   (page_id page) (html_escape (title page)) bookmarks)
                        pages)))"
| "render_sublevel bookmarks (Pages ps) parent_id level_depth url_prefix = Inl AttributeError"
| "render_sublevel bookmarks (Display s) parent_id level_depth url_prefix = Inl AttributeError"
  by pat_completeness auto
termination
proof (relation "measure (\<lambda>(b, node, p, l, u). size node)")
  show "wf (measure (\<lambda>(b, node, p, l, u). size node))" by simp
next
  fix bookmarks :: bool and d :: "(string \<times> val) list" and parent_id :: string
    and level_depth :: nat and url_prefix :: string and x2 :: "page list"
    and x :: "string \<times> val" and xa :: string and x2a :: string
  assume "x \<in> set (subfolders d)"
  then have mem: "x \<in> set d" by (simp add: subfolders_def)
  have "size (snd y) < Suc (size_list (size_prod (\<lambda>_. 0) size) ds)" if "y \<in> set ds"
    for y :: "string \<times> val" and ds
    using that by (induction ds) (auto simp: less_Suc_eq_le split: prod.splits)
  from this[OF mem]
  show "((bookmarks, snd x, xa, Suc level_depth, url_prefix),
         (bookmarks, Node d, parent_id, level_depth, url_prefix))
        \<in> measure (\<lambda>(b, node, p, l, u). size node)"
    by simp
qed

text \<open>\<^verbatim>\<open>generate_navigation_html_for_depth\<close>.\<close>

definition generate_navigation_html_for_depth :: "converter \<Rightarrow> int \<Rightarrow> error + nav_part list" where
  "generate_navigation_html_for_depth self rel_depth =
     (case build_tree (all_pages self) of
        Inl err \<Rightarrow> Inl err
      | Inr (Node tree) \<Rightarrow>
          (let pre = (if 0 < rel_depth then concat (replicate (nat rel_depth) ''../'') else [])
           in case sorted_pages tree of
                Inl err \<Rightarrow> Inl err
              | Inr root_pages \<Rightarrow>
                  (case sequence
                          (map (\<lambda>kv.
                                  (let icon_class = get_category_icon (conf self) (fst kv);
                                       level1_id = slug (fst kv)
                                   in case escaped_display (fst kv) (snd kv) of
                                        Inl err \<Rightarrow> Inl err
                                      | Inr level1_display \<Rightarrow>
                                          (case render_sublevel (show_bookmarks (conf self))
                                                  (snd kv) level1_id 1 pre of
                                             Inl err \<Rightarrow> Inl err
                                           | Inr inner \<Rightarrow>
                                               Inr ([Category_open level1_id icon_class level1_display]
                                                    @ inner @ [Category_close]))))
                               (subfolders tree)) of
                     Inl err \<Rightarrow> Inl err
                   | Inr nav_html \<Rightarrow>
                       Inr (nav_html @
                            map (\<lambda>page. Root_item (pre @ url page) (page_id page)
                                           (html_escape (title page)) (show_bookmarks (conf self)))
                                root_pages)))
      | Inr _ \<Rightarrow> Inl AttributeError)"

section \<open>Site generation and the entry point\<close>

text \<open>
  \<^verbatim>\<open>generate_site\<close> up to its early return. \<open>rest\<close> stands for the remainder of the
  method (asset copying, template loading, rendering and writing of all pages): it
  returns the converter as it leaves it and the exception it raised, if any.
\<close>

definition generate_site ::
  "('a env_scheme) \<Rightarrow> string list \<Rightarrow> (converter \<Rightarrow> converter \<times> error option) \<Rightarrow> converter
     \<Rightarrow> converter \<times> error option" where
  "generate_site e content_dir rest self =
     (let self1 = print [Generating_documentation_site] self;
          (pages, self2) = scan_directory e content_dir self1;
          self3 = self2\<lparr>all_pages := pages\<rparr>
      in if all_pages self3 = [] then (print [No_markdown_files_found] self3, None)
         else rest self3)"

text \<open>
  \<^verbatim>\<open>main\<close> once the arguments and the configuration are read: the lines printed and
  the exit status of the process, which is 0 when \<^verbatim>\<open>main\<close> returns and 1 when an
  exception leaves it. The program calls \<^verbatim>\<open>sys.exit\<close> nowhere.
\<close>

record outcome =
  printed :: "line list"
  exit_status :: int

definition main ::
  "('a env_scheme) \<Rightarrow> config \<Rightarrow> string \<Rightarrow> string list \<Rightarrow> string \<Rightarrow> string
     \<Rightarrow> (converter \<Rightarrow> converter \<times> error option) \<Rightarrow> outcome" where
  "main e cfg config_arg content_dir output_dir template_base rest =
     (let converter = \<lparr>conf = cfg, all_pages = [], categories = [], stdout = []\<rparr>;
          converter1 = print [Banner config_arg content_dir output_dir template_base] converter
      in case generate_site e content_dir rest converter1 of
           (converter2, Some err) \<Rightarrow> \<lparr>printed = stdout converter2, exit_status = 1\<rparr>
         | (converter2, None) \<Rightarrow>
             \<lparr>printed = stdout (print [Done_generated (length (all_pages converter2))] converter2),
              exit_status = 0\<rparr>)"

section \<open>Definitions that follow the specification's words\<close>

text \<open>The reading time as the specification words it: the ceiling of the word count
  over 200, at least 1.\<close>

definition reading_time_spec :: "string \<Rightarrow> int" where
  "reading_time_spec content = max 1 \<lceil>real (length (split content)) / 200\<rceil>"




text \<open>The pages of a scan, and the files that appear in its output.\<close>

definition scanned_pages :: "('a env_scheme) \<Rightarrow> string list \<Rightarrow> converter \<Rightarrow> page list" where
  "scanned_pages e content_dir self = fst (scan_directory e content_dir self)"



text \<open>
  The case the capitalization step gives one word, in the order the specification
  states: a configured acronym is upper-cased; otherwise a word of at least two
  characters that is already uppercase is kept; otherwise a function word that is not
  the first word is lower-cased; every other word is title-cased.
\<close>

definition function_words :: "string list" where
  "function_words = [''and'', ''or'', ''the'', ''a'', ''an'', ''in'', ''on'', ''at'',
                     ''to'', ''for'', ''of'', ''with'']"

definition cased_word :: "string set \<Rightarrow> bool \<Rightarrow> string \<Rightarrow> string" where
  "cased_word acros is_first word =
     (if lower word \<in> acros then upper word
      else if 2 \<le> length word \<and> isupper word then word
      else if \<not> is_first \<and> lower word \<in> set function_words then lower word
      else capitalize word)"

text \<open>
  The frontmatter dictionary the legacy header lines give: each line that holds an entry
  stores it, in order (a later line with the same key replaces the value).
\<close>

definition header_entries :: "string list \<Rightarrow> (string \<times> string) list" where
  "header_entries header =
     foldl (\<lambda>fm line. case percent_entry line of Some (key, val) \<Rightarrow> AList.update key val fm
                                                 | None \<Rightarrow> fm) [] header"

definition newline :: string where
  "newline = [CHR 0x0A]"

definition no_newline :: "string \<Rightarrow> bool" where
  "no_newline line = (CHR 0x0A \<notin> set line)"

text \<open>A word as \<^verbatim>\<open>split\<close> returns it from a display text in which hyphens and
  underscores were replaced by spaces: non-empty, without whitespace, hyphen or
  underscore.\<close>

definition plain_char :: "char \<Rightarrow> bool" where
  "plain_char c = (\<not> isspace c \<and> c \<noteq> CHR ''-'' \<and> c \<noteq> CHR ''_'')"

definition plain_word :: "string \<Rightarrow> bool" where
  "plain_word w = (w \<noteq> [] \<and> list_all plain_char w)"


fun display_at :: "val \<Rightarrow> string list \<Rightarrow> string option" where
  "display_at (Node d) [] = (case map_of d display_key of Some (Display s) \<Rightarrow> Some s | _ \<Rightarrow> None)"
| "display_at (Node d) (k # q) = (case map_of d k of Some v \<Rightarrow> display_at v q | None \<Rightarrow> None)"
| "display_at (Display s) q = None"
| "display_at (Pages l) q = None"

fun pages_at :: "val \<Rightarrow> string list \<Rightarrow> page list" where
  "pages_at (Node d) [] = (case map_of d pages_key of Some (Pages l) \<Rightarrow> l | _ \<Rightarrow> [])"
| "pages_at (Node d) (k # q) = (case map_of d k of Some v \<Rightarrow> pages_at v q | None \<Rightarrow> [])"
| "pages_at (Display s) q = []"
| "pages_at (Pages l) q = []"

fun val_pages :: "val \<Rightarrow> page set" where
  "val_pages (Pages l) = set l"
| "val_pages (Display s) = {}"
| "val_pages (Node d) = (\<Union>v \<in> set (map snd d). val_pages v)"

text \<open>The page links among the emitted parts, and the link the renderer emits for a page
  under a given URL prefix.\<close>

definition is_link :: "nav_part \<Rightarrow> bool" where
  "is_link part =
     (case part of Nav_item href cls pid t bm \<Rightarrow> True | Root_item href pid t bm \<Rightarrow> True
      | _ \<Rightarrow> False)"

definition is_link_of :: "string \<Rightarrow> page \<Rightarrow> nav_part \<Rightarrow> bool" where
  "is_link_of pre p part =
     (case part of
        Nav_item href cls pid t bm \<Rightarrow>
          href = pre @ url p \<and> pid = page_id p \<and> t = html_escape (title p)
      | Root_item href pid t bm \<Rightarrow>
          href = pre @ url p \<and> pid = page_id p \<and> t = html_escape (title p)
      | _ \<Rightarrow> False)"

text \<open>\<open>d\<close> segments \<^verbatim>\<open>../\<close>.\<close>

definition up_segments :: "nat \<Rightarrow> string" where
  "up_segments d = concat (replicate d ''../'')"





text \<open>Pages as the scanner makes them: the display levels are the formatted raw levels.\<close>

definition scanner_shaped :: "(string \<Rightarrow> string) \<Rightarrow> page list \<Rightarrow> bool" where
  "scanner_shaped fmt ps = (\<forall>p\<in>set ps. levels p = map fmt (levels_raw p))"




text \<open>A text of ASCII characters: every character code is below 128. On such texts the
  character predicates and case conversions of this theory are those of Python.\<close>

definition is_ascii :: "string \<Rightarrow> bool" where
  "is_ascii s = list_all (\<lambda>c. of_char c < (128 :: nat)) s"

text \<open>
  Where a content directory lies in the file system: an absolute path (its first part is
  the root \<^verbatim>\<open>/\<close>) stands for itself, a relative one is taken from the working
  directory. The ancestor directories of the content directory are the parts above its
  last one. The scanner itself never resolves the path it is handed.
\<close>

definition resolved :: "string list \<Rightarrow> string list \<Rightarrow> string list" where
  "resolved cwd path = (if path \<noteq> [] \<and> hd path = ''/'' then path else cwd @ path)"

definition ancestor_directories :: "string list \<Rightarrow> string list \<Rightarrow> string list" where
  "ancestor_directories cwd content_dir = butlast (resolved cwd content_dir)"



section \<open>The defaults of the code, and concrete inputs\<close>

text \<open>The configuration an empty \<^verbatim>\<open>config.json\<close> gives: the default of each
  \<^verbatim>\<open>config.get\<close> of the modelled code.\<close>

definition default_config :: config where
  "default_config =
     \<lparr>strip_prefix = True, acronyms = {}, display_overrides = Map.empty,
      exclude_folders = [''.trash'', ''.obsidian'', ''.git'', ''__pycache__'', ''node_modules''],
      show_bookmarks = True, category_icons = Map.empty, default_icon = ''fas fa-folder''\<rparr>"

definition new_converter :: "config \<Rightarrow> converter" where
  "new_converter cfg = \<lparr>conf = cfg, all_pages = [], categories = [], stdout = []\<rparr>"

text \<open>A content directory holding the given Markdown files, all readable with the same
  text and no frontmatter.\<close>

definition plain_files :: "string list list \<Rightarrow> env" where
  "plain_files files =
     \<lparr>yaml_safe_load = (\<lambda>block. Yaml_mapping []), md_convert = (\<lambda>body. body),
      dir_exists = True, rglob_md = files, read_text = (\<lambda>rel. Some ''Some text'')\<rparr>"


text \<open>A missing content directory.\<close>

definition missing_directory :: env where
  "missing_directory = (plain_files [])\<lparr>dir_exists := False\<rparr>"

text \<open>A converter after scanning a small site: a page at the root, one in a category and
  one in a subcategory.\<close>

definition example_site :: converter where
  "example_site =
     (new_converter default_config)
       \<lparr>all_pages := fst (scan_directory
            (plain_files [[''01-guides'', ''intro.md''], [''01-guides'', ''sub'', ''a.md''],
                          [''index.md''], [''top.md'']])
            [''docs''] (new_converter default_config))\<rparr>"




section \<open>Character classes and case conversion\<close>

lemma upper_char_cases:
  "(\<not> islower_char c \<and> upper_char c = c)
   \<or> (islower_char c \<and> isupper_char (upper_char c) \<and> lower_char (upper_char c) = c)"
  unfolding islower_char_def isupper_char_def upper_char_def lower_char_def
    lower_letters_def upper_letters_def
  by simp

lemma lower_char_cases:
  "(\<not> isupper_char c \<and> lower_char c = c)
   \<or> (isupper_char c \<and> islower_char (lower_char c) \<and> upper_char (lower_char c) = c)"
  unfolding islower_char_def isupper_char_def upper_char_def lower_char_def
    lower_letters_def upper_letters_def
  by simp

lemma letter_classes:
  "isupper_char c \<or> islower_char c \<Longrightarrow>
     \<not> isspace c \<and> \<not> isdigit c \<and> c \<noteq> CHR ''-'' \<and> c \<noteq> CHR ''_'' \<and> c \<noteq> CHR ''.''"
  unfolding islower_char_def isupper_char_def isspace_def isdigit_def
    lower_letters_def upper_letters_def
  by auto

lemma upper_lower_disjoint: "isupper_char c \<Longrightarrow> \<not> islower_char c"
  unfolding islower_char_def isupper_char_def lower_letters_def upper_letters_def
  by auto

lemma upper_char_fixed: "\<not> islower_char c \<Longrightarrow> upper_char c = c"
  using upper_char_cases[of c] by blast

lemma lower_char_fixed: "\<not> isupper_char c \<Longrightarrow> lower_char c = c"
  using lower_char_cases[of c] by blast

lemma lower_upper_char: "lower_char (upper_char c) = lower_char c"
  using upper_char_cases[of c] lower_char_cases[of c] upper_lower_disjoint[of c] by metis

lemma lower_lower_char: "lower_char (lower_char c) = lower_char c"
  using lower_char_cases[of c] lower_char_cases[of "lower_char c"] upper_lower_disjoint
  by metis

lemma upper_upper_char: "upper_char (upper_char c) = upper_char c"
  using upper_char_cases[of c] upper_char_cases[of "upper_char c"] upper_lower_disjoint
  by metis

lemma islower_lower_char: "islower_char (lower_char c) \<longleftrightarrow> islower_char c \<or> isupper_char c"
  using lower_char_cases[of c] upper_lower_disjoint[of c] by metis

lemma isupper_lower_char: "\<not> isupper_char (lower_char c)"
  using lower_char_cases[of c] upper_lower_disjoint by metis

lemma isupper_upper_char: "isupper_char (upper_char c) \<longleftrightarrow> islower_char c \<or> isupper_char c"
  using upper_char_cases[of c] upper_lower_disjoint[of c] by metis

lemma islower_upper_char: "\<not> islower_char (upper_char c)"
  using upper_char_cases[of c] upper_lower_disjoint by metis

lemma isspace_upper_char: "isspace (upper_char c) \<longleftrightarrow> isspace c"
  using upper_char_cases[of c] letter_classes by metis

lemma isspace_lower_char: "isspace (lower_char c) \<longleftrightarrow> isspace c"
  using lower_char_cases[of c] letter_classes by metis

lemma isdigit_upper_char: "isdigit (upper_char c) \<longleftrightarrow> isdigit c"
  using upper_char_cases[of c] letter_classes by metis

lemma isdigit_lower_char: "isdigit (lower_char c) \<longleftrightarrow> isdigit c"
  using lower_char_cases[of c] letter_classes by metis

lemma upper_isupper: "isupper s \<Longrightarrow> upper s = s"
  by (simp add: isupper_def upper_def list_all_iff upper_char_fixed map_idI)

section \<open>Reading time\<close>

lemma split_from_word_space:
  "\<not> isspace c \<Longrightarrow> split_from w (concat (replicate n [c, CHR '' ''])) =
     (if n = 0 then (if w = [] then [] else [w]) else (w @ [c]) # replicate (n - 1) [c])"
proof (induction n arbitrary: w)
  case 0
  then show ?case by simp
next
  case (Suc n)
  have sp: "isspace CHR '' ''" by (simp add: isspace_def)
  show ?case
    using Suc.prems sp Suc.IH[OF Suc.prems, of "[]"] by (cases n) simp_all
qed

lemma words_replicate: "length (split (concat (replicate n ''w ''))) = n"
  using split_from_word_space[of "CHR ''w''" "[]" n]
  by (cases n) (simp_all add: split_def isspace_def)

lemma round_half_even_div_nearest:
  fixes a :: int
  assumes "0 \<le> a"
  shows "\<bar>real_of_int (round_half_even_div a 200) - real_of_int a / 200\<bar> \<le> 1 / 2"
    and "\<bar>real_of_int (round_half_even_div a 200) - real_of_int a / 200\<bar> = 1 / 2
           \<Longrightarrow> even (round_half_even_div a 200)"
proof -
  define q r where "q = a div 200" and "r = a mod 200"
  have a: "a = 200 * q + r" and r: "0 \<le> r" "r < 200"
    by (simp_all add: q_def r_def)
  have ra: "real_of_int a / 200 = real_of_int q + real_of_int r / 200"
    by (simp add: a)
  have pr: "round_half_even_div a 200 =
      (if 2 * r < 200 then q else if 200 < 2 * r then q + 1 else if even q then q else q + 1)"
    by (simp add: round_half_even_div_def Let_def q_def r_def)
  show "\<bar>real_of_int (round_half_even_div a 200) - real_of_int a / 200\<bar> \<le> 1 / 2"
    unfolding pr ra using r by (auto simp: abs_le_iff field_simps)
  show "even (round_half_even_div a 200)"
    if tie: "\<bar>real_of_int (round_half_even_div a 200) - real_of_int a / 200\<bar> = 1 / 2"
  proof -
    have "r = 100"
    proof (rule ccontr)
      assume "r \<noteq> 100"
      then consider "2 * r < 200" | "200 < 2 * r" by linarith
      then show False
      proof cases
        case 1
        then have "\<bar>real_of_int (round_half_even_div a 200) - real_of_int a / 200\<bar>
                     = real_of_int r / 200"
          unfolding pr ra using r by simp
        with tie 1 show False by simp
      next
        case 2
        then have "\<bar>real_of_int (round_half_even_div a 200) - real_of_int a / 200\<bar>
                     = 1 - real_of_int r / 200"
          unfolding pr ra using r by (simp add: abs_if field_simps)
        with tie 2 show False by (simp add: field_simps)
      qed
    qed
    then show ?thesis unfolding pr by simp
  qed
qed

text \<open>
  Claim C3, as stated, fails: a body of 201 words has reading time 1, while the ceiling
  of 201/200 is 2.
\<close>

theorem C3_reading_time_not_ceiling:
  "calculate_reading_time (concat (replicate 201 ''w ''))
     \<noteq> reading_time_spec (concat (replicate 201 ''w ''))"
  by (simp add: calculate_reading_time_def reading_time_spec_def words_replicate
      round_half_even_div_def Let_def)

text \<open>
  Claim C3, amended: for every Markdown body with \<open>w\<close> words the reading time is at
  least 1; it is 1 up to 100 words, and beyond 100 words it is \<open>w/200\<close> rounded to the
  nearest integer, a tie going to the even neighbour. In particular a 400-word body
  yields 2 and a 50-word body yields 1.
\<close>

theorem C3_reading_time_rounds_to_nearest:
  "(let w = length (split content); rt = calculate_reading_time content
    in 1 \<le> rt
     \<and> (w \<le> 100 \<longrightarrow> rt = 1)
     \<and> (100 < w \<longrightarrow> \<bar>real_of_int rt - real w / 200\<bar> \<le> 1 / 2)
     \<and> (100 < w \<and> \<bar>real_of_int rt - real w / 200\<bar> = 1 / 2 \<longrightarrow> even rt)
     \<and> (w = 400 \<longrightarrow> rt = 2)
     \<and> (w = 50 \<longrightarrow> rt = 1))"
proof -
  define w where "w = length (split content)"
  define a where "a = int w"
  have rt: "calculate_reading_time content = max 1 (round_half_even_div a 200)"
    by (simp add: calculate_reading_time_def a_def w_def)
  have a0: "0 \<le> a" by (simp add: a_def)
  have ra: "real w = real_of_int a" by (simp add: a_def)
  have small: "round_half_even_div a 200 \<le> 0" if "w \<le> 100"
  proof -
    have "a div 200 = 0" "a mod 200 = a" using that by (simp_all add: a_def)
    then show ?thesis using that by (simp add: round_half_even_div_def Let_def a_def)
  qed
  have big: "1 \<le> round_half_even_div a 200" if "100 < w"
  proof -
    have "1 / 2 < real_of_int a / 200" using that by (simp add: a_def)
    with round_half_even_div_nearest(1)[OF a0]
    have "0 < real_of_int (round_half_even_div a 200)" by linarith
    then show ?thesis by simp
  qed
  have eq: "calculate_reading_time content = round_half_even_div a 200" if "100 < w"
    using big[OF that] by (simp add: rt)
  have c1: "1 \<le> calculate_reading_time content" by (simp add: rt)
  have c2: "w \<le> 100 \<longrightarrow> calculate_reading_time content = 1"
    using small by (auto simp: rt)
  have c3: "100 < w \<longrightarrow> \<bar>real_of_int (calculate_reading_time content) - real w / 200\<bar> \<le> 1 / 2"
    using round_half_even_div_nearest(1)[OF a0] eq ra by simp
  have c4: "100 < w \<and> \<bar>real_of_int (calculate_reading_time content) - real w / 200\<bar> = 1 / 2
              \<longrightarrow> even (calculate_reading_time content)"
  proof
    assume h: "100 < w \<and> \<bar>real_of_int (calculate_reading_time content) - real w / 200\<bar> = 1 / 2"
    then have e: "calculate_reading_time content = round_half_even_div a 200"
      using eq by blast
    from h have "\<bar>real_of_int (round_half_even_div a 200) - real_of_int a / 200\<bar> = 1 / 2"
      unfolding e ra by blast
    then show "even (calculate_reading_time content)"
      unfolding e by (rule round_half_even_div_nearest(2)[OF a0])
  qed
  have c5: "w = 400 \<longrightarrow> calculate_reading_time content = 2"
    by (simp add: rt a_def round_half_even_div_def Let_def)
  have c6: "w = 50 \<longrightarrow> calculate_reading_time content = 1"
    by (simp add: rt a_def round_half_even_div_def Let_def)
  show ?thesis
    unfolding Let_def w_def[symmetric] using c1 c2 c3 c4 c5 c6 by blast
qed

theorem C3_reading_time_witness:
  "(let content = concat (replicate 400 ''w ''); w = length (split content);
        rt = calculate_reading_time content
    in w = 400 \<and> 100 < w \<and> rt = 2 \<and> \<bar>real_of_int rt - real w / 200\<bar> \<le> 1 / 2)"
  using C3_reading_time_rounds_to_nearest[of "concat (replicate 400 ''w '')"]
  by (simp add: Let_def words_replicate)

section \<open>Content scanner\<close>




lemma conf_print: "conf (print ls self) = conf self"
  by (simp add: print_def)

lemma scan_loop_pages:
  "fst (scan_loop e content_dir files (pages, self)) =
     pages @ concat (map (\<lambda>f. case fst (process_markdown_file e (conf self) content_dir f) of
                                 Inl err \<Rightarrow> [] | Inr p \<Rightarrow> [p]) files)"
proof (induction files arbitrary: pages self)
  case Nil
  then show ?case by simp
next
  case (Cons f files)
  show ?case
  proof (cases "process_markdown_file e (conf self) content_dir f")
    case (Pair r printed)
    then show ?thesis
      by (cases r) (simp_all add: Cons.IH conf_print Let_def)
  qed
qed

lemma process_markdown_file_fields:
  assumes "fst (process_markdown_file e cfg content_dir rel) = Inr p"
  shows "relative_path p = rel" and "page_id p = generate_page_id rel"
    and "levels_raw p = butlast rel"
    and "levels p = map (\<lambda>n. format_display_name n (strip_prefix cfg) (acronyms cfg)
                                 (display_overrides cfg)) (butlast rel)"
    and "depth p = length (butlast rel)"
  using assms
  by (auto simp: process_markdown_file_def get_page_hierarchy_def Let_def
      split: option.splits prod.splits)

lemma scanned_pages_existing:
  "dir_exists e \<Longrightarrow> scanned_pages e content_dir self =
     concat (map (\<lambda>f. case fst (process_markdown_file e (conf self) content_dir f) of
                        Inl err \<Rightarrow> [] | Inr p \<Rightarrow> [p])
       (sort (filter (keep_md_file (exclude_folders (conf self)) content_dir) (rglob_md e))))"
  by (simp add: scanned_pages_def scan_directory_def scan_loop_pages Let_def)

lemma scanned_pages_missing: "\<not> dir_exists e \<Longrightarrow> scanned_pages e content_dir self = []"
  by (simp add: scanned_pages_def scan_directory_def)

lemma scanned_page_origin:
  assumes "p \<in> set (scanned_pages e content_dir self)"
  shows "relative_path p \<in> set (rglob_md e)
         \<and> keep_md_file (exclude_folders (conf self)) content_dir (relative_path p)
         \<and> fst (process_markdown_file e (conf self) content_dir (relative_path p)) = Inr p"
proof (cases "dir_exists e")
  case False
  with assms show ?thesis by (simp add: scanned_pages_missing)
next
  case True
  from assms obtain f where f: "f \<in> set (rglob_md e)"
      "keep_md_file (exclude_folders (conf self)) content_dir f"
      "fst (process_markdown_file e (conf self) content_dir f) = Inr p"
    unfolding scanned_pages_existing[OF True] by (auto split: sum.splits)
  from process_markdown_file_fields(1)[OF f(3)] f show ?thesis by simp
qed

lemma scanned_pages_levels:
  assumes "p \<in> set (scanned_pages e content_dir self)"
  shows "length (levels p) = length (levels_raw p) \<and> length (levels_raw p) = depth p"
proof -
  from scanned_page_origin[OF assms]
  have "fst (process_markdown_file e (conf self) content_dir (relative_path p)) = Inr p"
    by simp
  from process_markdown_file_fields(3,4,5)[OF this] show ?thesis by simp
qed

text \<open>
  Claim C1: the page id is not unique. The files \<^verbatim>\<open>a/b.md\<close> and \<^verbatim>\<open>a-b.md\<close> of one
  content directory both pass the scanner, and both pages get the id \<^verbatim>\<open>a-b\<close>
  (\<open>scanned_pages_levels\<close> above is the part of the claim about \<open>levels\<close>, which holds).
\<close>

theorem C1_page_id_collision:
  "map relative_path (scanned_pages (plain_files [[''a'', ''b.md''], [''a-b.md'']]) [''docs'']
                        (new_converter default_config)) = [[''a'', ''b.md''], [''a-b.md'']]
   \<and> map page_id (scanned_pages (plain_files [[''a'', ''b.md''], [''a-b.md'']]) [''docs'']
                        (new_converter default_config)) = [''a-b'', ''a-b'']"
  by code_simp




text \<open>
  Claim C10, as stated, fails: an ancestor directory of the content directory is tested
  only if the path handed to the scanner names it. With the working directory
  \<^verbatim>\<open>/home/node_modules/site\<close> and the relative content directory \<^verbatim>\<open>docs\<close>, the
  ancestor \<^verbatim>\<open>node_modules\<close> is an excluded folder name, and the file
  \<^verbatim>\<open>docs/guides/intro.md\<close> is still scanned.
\<close>

theorem C10_unnamed_ancestor_not_tested:
  "list_ex (\<lambda>seg. seg \<in> set (exclude_folders (conf (new_converter default_config))))
     (ancestor_directories [''/'', ''home'', ''node_modules'', ''site''] [''docs''])
   \<and> scanned_pages (plain_files [[''guides'', ''intro.md'']]) [''docs'']
        (new_converter default_config) \<noteq> []"
  by code_simp

text \<open>
  Claim C10, amended: the excluded-folder test reads every segment of the file's path as
  the scanner holds it, that is the parts of the content directory path as it was handed
  to the scanner (not resolved against the working directory) followed by the file's
  relative parts. If a segment of that content directory path, its own name or an
  ancestor the path names, is an excluded folder name, every Markdown file is skipped
  and the scan returns no page.
\<close>

theorem C10_excluded_ancestor_empties_scan:
  assumes "list_ex (\<lambda>seg. seg \<in> set (exclude_folders (conf self))) content_dir"
  shows "scanned_pages e content_dir self = []"
proof (cases "dir_exists e")
  case False
  then show ?thesis by (simp add: scanned_pages_missing)
next
  case True
  have "\<not> keep_md_file (exclude_folders (conf self)) content_dir f" for f
    using assms by (auto simp: keep_md_file_def list_ex_iff)
  then show ?thesis by (simp add: scanned_pages_existing[OF True])
qed

theorem C10_excluded_ancestor_witness:
  "list_ex (\<lambda>seg. seg \<in> set (exclude_folders (conf (new_converter default_config))))
     [''home'', ''node_modules'', ''docs'']
   \<and> scanned_pages (plain_files [[''guides'', ''intro.md'']]) [''home'', ''node_modules'', ''docs'']
        (new_converter default_config) = []
   \<and> scanned_pages (plain_files [[''guides'', ''intro.md'']]) [''home'', ''docs'']
        (new_converter default_config) \<noteq> []"
proof -
  have 1: "list_ex (\<lambda>seg. seg \<in> set (exclude_folders (conf (new_converter default_config))))
             [''home'', ''node_modules'', ''docs'']"
    by code_simp
  have 2: "scanned_pages (plain_files [[''guides'', ''intro.md'']]) [''home'', ''docs'']
             (new_converter default_config) \<noteq> []"
    by code_simp
  from C10_excluded_ancestor_empties_scan[OF 1, of "plain_files [[''guides'', ''intro.md'']]"] 1 2
  show ?thesis by blast
qed

section \<open>Run-level outcome\<close>


lemma scanned_pages_conf:
  "conf self = conf self' \<Longrightarrow> scanned_pages e content_dir self = scanned_pages e content_dir self'"
  by (cases "dir_exists e") (simp_all add: scanned_pages_existing scanned_pages_missing)

lemma scan_loop_stdout:
  "\<exists>more. stdout (snd (scan_loop e content_dir files (pages, self))) = stdout self @ more"
proof (induction files arbitrary: pages self)
  case Nil
  then show ?case by simp
next
  case (Cons f files)
  show ?case
  proof (cases "process_markdown_file e (conf self) content_dir f")
    case (Pair r pr)
    show ?thesis
    proof (cases r)
      case (Inl err)
      from Cons.IH[of pages "print pr self"] obtain more where
        "stdout (snd (scan_loop e content_dir files (pages, print pr self))) = stdout (print pr self) @ more"
        by blast
      with Pair Inl show ?thesis by (simp add: print_def)
    next
      case (Inr pg)
      define self' where "self' = (print pr self)
         \<lparr>categories := AList.update (case levels_raw pg of [] \<Rightarrow> ''General'' | l # ls \<Rightarrow> l)
             ((case map_of (categories self) (case levels_raw pg of [] \<Rightarrow> ''General'' | l # ls \<Rightarrow> l)
                of None \<Rightarrow> [] | Some b \<Rightarrow> b) @ [pg]) (categories self)\<rparr>"
      from Cons.IH[of "pages @ [pg]" self'] obtain more where
        "stdout (snd (scan_loop e content_dir files (pages @ [pg], self'))) = stdout self' @ more"
        by blast
      with Pair Inr show ?thesis by (simp add: print_def Let_def self'_def)
    qed
  qed
qed

lemma scan_directory_stdout:
  "\<exists>more. stdout (snd (scan_directory e content_dir self)) = stdout self @ more
     \<and> (\<not> dir_exists e \<longrightarrow> more = [Content_directory_not_found content_dir])"
proof (cases "dir_exists e")
  case False
  then show ?thesis by (simp add: scan_directory_def print_def)
next
  case True
  with scan_loop_stdout[of e content_dir _ "[]" self] show ?thesis
    by (simp add: scan_directory_def Let_def)
qed

text \<open>
  Claim C2, as stated, fails: with a missing content directory the run ends with exit
  status 0.
\<close>

theorem C2_missing_directory_exit_status_zero:
  "\<not> dir_exists missing_directory
   \<and> exit_status (main missing_directory default_config ''config.json'' [''input'', ''notes'']
                      ''output'' ''templates/default'' (\<lambda>self. (self, None))) = 0"
  by code_simp

text \<open>
  Claim C2, amended: when the content directory is missing or the scan yields no page,
  \<^verbatim>\<open>generate_site\<close> prints its diagnostic (\<^verbatim>\<open>Content directory not found\<close> for a missing
  directory, then \<^verbatim>\<open>No markdown files found!\<close>) and returns before anything is
  generated, whatever the remainder of the method would do; \<^verbatim>\<open>main\<close> then prints its
  closing line for 0 pages and the process ends with exit status 0.
\<close>

theorem C2_empty_run_returns_normally:
  assumes "\<not> dir_exists e \<or> scanned_pages e content_dir (new_converter cfg) = []"
  shows "exit_status (main e cfg config_arg content_dir output_dir template_base rest) = 0
     \<and> (\<exists>more. printed (main e cfg config_arg content_dir output_dir template_base rest) =
           [Banner config_arg content_dir output_dir template_base, Generating_documentation_site]
           @ more @ [No_markdown_files_found, Done_generated 0]
           \<and> (\<not> dir_exists e \<longrightarrow> more = [Content_directory_not_found content_dir]))"
proof -
  define c1 where "c1 = \<lparr>conf = cfg, all_pages = [], categories = [],
      stdout = [Banner config_arg content_dir output_dir template_base,
                Generating_documentation_site]\<rparr>"
  have conf1: "conf c1 = conf (new_converter cfg)"
    by (simp add: c1_def new_converter_def)
  have empty: "fst (scan_directory e content_dir c1) = []"
  proof -
    have "scanned_pages e content_dir c1 = []"
      using assms scanned_pages_conf[OF conf1, of e content_dir]
      by (auto simp: scanned_pages_missing)
    then show ?thesis by (simp add: scanned_pages_def)
  qed
  obtain more where more: "stdout (snd (scan_directory e content_dir c1)) = stdout c1 @ more"
    "\<not> dir_exists e \<longrightarrow> more = [Content_directory_not_found content_dir]"
    using scan_directory_stdout[of e content_dir c1] by blast
  have out1: "stdout c1 = [Banner config_arg content_dir output_dir template_base,
      Generating_documentation_site]"
    by (simp add: c1_def)
  obtain ps c2 where sc: "scan_directory e content_dir c1 = (ps, c2)" by (cases "scan_directory e content_dir c1")
  with empty more out1 have ps: "ps = []" and c2: "stdout c2 = [Banner config_arg content_dir output_dir template_base,
      Generating_documentation_site] @ more" by simp_all
  have m: "main e cfg config_arg content_dir output_dir template_base rest =
      \<lparr>printed = stdout c2 @ [No_markdown_files_found, Done_generated 0], exit_status = 0\<rparr>"
    using sc ps by (simp add: main_def generate_site_def Let_def print_def c1_def[symmetric])
  show ?thesis unfolding m using c2 more(2) by simp
qed

theorem C2_empty_run_witness:
  "\<not> dir_exists missing_directory
   \<and> exit_status (main missing_directory default_config ''config.json'' [''input'', ''notes'']
                      ''output'' ''templates/default'' (\<lambda>self. (self, Some OSError))) = 0
   \<and> printed (main missing_directory default_config ''config.json'' [''input'', ''notes'']
                      ''output'' ''templates/default'' (\<lambda>self. (self, Some OSError))) =
       [Banner ''config.json'' [''input'', ''notes''] ''output'' ''templates/default'',
        Generating_documentation_site, Content_directory_not_found [''input'', ''notes''],
        No_markdown_files_found, Done_generated 0]"
proof -
  have 1: "\<not> dir_exists missing_directory" by code_simp
  then have 2: "\<not> dir_exists missing_directory
      \<or> scanned_pages missing_directory [''input'', ''notes''] (new_converter default_config) = []"
    by blast
  from C2_empty_run_returns_normally[OF 2, of "''config.json''" "''output''"
      "''templates/default''" "\<lambda>self. (self, Some OSError)"] 1
  show ?thesis by auto
qed

section \<open>Capitalization\<close>


lemma LOWERCASE_WORDS_function_words: "LOWERCASE_WORDS = set function_words"
  by (auto simp: LOWERCASE_WORDS_def function_words_def)

lemma capitalize_loop_map:
  "capitalize_loop acros i words result =
     result @ map (\<lambda>(j, w). cased_word acros (j = 0) w) (enumerate i words)"
proof (induction words arbitrary: i result)
  case Nil
  then show ?case by simp
next
  case (Cons word words)
  show ?case
    by (simp add: Cons.IH Let_def cased_word_def LOWERCASE_WORDS_function_words)
qed

lemma capitalize_with_acronyms_words:
  "capitalize_with_acronyms text acros =
     join '' '' (map (\<lambda>(j, w). cased_word acros (j = 0) w) (enumerate 0 (split text)))"
  by (simp add: capitalize_with_acronyms_def capitalize_loop_map)

text \<open>
  Claim C5: for every text and acronym set the result is the words of the text, each
  recased, joined by single spaces, where a word whose lowercase form is an acronym is
  upper-cased; a word of length at least 2 that is already uppercase is kept unchanged
  (also when it is an acronym or a function word); a function word (\<open>function_words\<close>
  is the fixed list) that is neither of these is lower-cased when it is not the first
  word; and every other word is title-cased. The two examples of the specification hold.
\<close>

theorem C5_capitalize_with_acronyms_cases:
  "\<exists>out. capitalize_with_acronyms text acros = join '' '' out
     \<and> length out = length (split text)
     \<and> (\<forall>i < length out.
          let word = split text ! i in
            (lower word \<in> acros \<longrightarrow> out ! i = upper word)
          \<and> (2 \<le> length word \<and> isupper word \<longrightarrow> out ! i = word)
          \<and> (lower word \<notin> acros \<and> \<not> (2 \<le> length word \<and> isupper word)
               \<and> lower word \<in> set function_words \<and> i \<noteq> 0 \<longrightarrow> out ! i = lower word)
          \<and> (lower word \<notin> acros \<and> \<not> (2 \<le> length word \<and> isupper word)
               \<and> (lower word \<notin> set function_words \<or> i = 0) \<longrightarrow> out ! i = capitalize word))
     \<and> capitalize_with_acronyms ''api testing'' {''api''} = ''API Testing''
     \<and> capitalize_with_acronyms ''TO DO list'' {} = ''TO DO List''"
proof -
  define out where "out = map (\<lambda>(j, w). cased_word acros (j = 0) w) (enumerate 0 (split text))"
  have 1: "capitalize_with_acronyms text acros = join '' '' out"
    by (simp add: out_def capitalize_with_acronyms_words)
  have 2: "length out = length (split text)" by (simp add: out_def)
  have nth: "out ! i = cased_word acros (i = 0) (split text ! i)" if "i < length out" for i
    using that by (simp add: out_def nth_enumerate_eq)
  have 3: "\<forall>i < length out.
          let word = split text ! i in
            (lower word \<in> acros \<longrightarrow> out ! i = upper word)
          \<and> (2 \<le> length word \<and> isupper word \<longrightarrow> out ! i = word)
          \<and> (lower word \<notin> acros \<and> \<not> (2 \<le> length word \<and> isupper word)
               \<and> lower word \<in> set function_words \<and> i \<noteq> 0 \<longrightarrow> out ! i = lower word)
          \<and> (lower word \<notin> acros \<and> \<not> (2 \<le> length word \<and> isupper word)
               \<and> (lower word \<notin> set function_words \<or> i = 0) \<longrightarrow> out ! i = capitalize word)"
    using nth by (auto simp: Let_def cased_word_def upper_isupper)
  have 4: "capitalize_with_acronyms ''api testing'' {''api''} = ''API Testing''" by code_simp
  have 5: "capitalize_with_acronyms ''TO DO list'' {} = ''TO DO List''" by code_simp
  from 1 2 3 4 5 show ?thesis by blast
qed

theorem C5_capitalize_witness:
  "split ''the api of TO DO lists'' = [''the'', ''api'', ''of'', ''TO'', ''DO'', ''lists'']
   \<and> lower ''api'' \<in> {''api''} \<and> 2 \<le> length ''TO'' \<and> isupper ''TO''
   \<and> lower ''of'' \<in> set function_words
   \<and> (\<exists>out. capitalize_with_acronyms ''the api of TO DO lists'' {''api''} = join '' '' out
          \<and> length out = 6 \<and> out ! 1 = ''API'' \<and> out ! 3 = ''TO'' \<and> out ! 2 = ''of''
          \<and> out ! 0 = ''The'')"
proof -
  have s: "split ''the api of TO DO lists'' = [''the'', ''api'', ''of'', ''TO'', ''DO'', ''lists'']"
    by code_simp
  have a: "lower ''api'' \<in> {''api''}" by code_simp
  have b: "2 \<le> length ''TO'' \<and> isupper ''TO''" by code_simp
  have c: "lower ''of'' \<in> set function_words \<and> lower ''of'' \<notin> {''api''} \<and> \<not> isupper ''of''"
    by code_simp
  have d: "lower ''the'' \<notin> {''api''} \<and> \<not> isupper ''the''" by code_simp
  have e: "upper ''api'' = ''API'' \<and> lower ''of'' = ''of'' \<and> capitalize ''the'' = ''The''"
    by code_simp
  from C5_capitalize_with_acronyms_cases[of "''the api of TO DO lists''" "{''api''}"]
  obtain out where out: "capitalize_with_acronyms ''the api of TO DO lists'' {''api''} = join '' '' out"
    "length out = length (split ''the api of TO DO lists'')"
    "\<forall>i < length out.
          let word = split ''the api of TO DO lists'' ! i in
            (lower word \<in> {''api''} \<longrightarrow> out ! i = upper word)
          \<and> (2 \<le> length word \<and> isupper word \<longrightarrow> out ! i = word)
          \<and> (lower word \<notin> {''api''} \<and> \<not> (2 \<le> length word \<and> isupper word)
               \<and> lower word \<in> set function_words \<and> i \<noteq> 0 \<longrightarrow> out ! i = lower word)
          \<and> (lower word \<notin> {''api''} \<and> \<not> (2 \<le> length word \<and> isupper word)
               \<and> (lower word \<notin> set function_words \<or> i = 0) \<longrightarrow> out ! i = capitalize word)"
    by blast
  have len: "length out = 6" using out(2) s by simp
  have o1: "out ! 1 = ''API''" using out(3)[rule_format, of 1] len s a e by (simp add: Let_def)
  have o3: "out ! 3 = ''TO''" using out(3)[rule_format, of 3] len s b by (simp add: Let_def)
  have o2: "out ! 2 = ''of''" using out(3)[rule_format, of 2] len s c e by (simp add: Let_def)
  have o0: "out ! 0 = ''The''" using out(3)[rule_format, of 0] len s d e by (simp add: Let_def)
  from s a b c out(1) len o1 o3 o2 o0 show ?thesis by blast
qed

section \<open>Legacy frontmatter\<close>


lemma split_on_from_append:
  "sep \<notin> set x \<Longrightarrow> split_on_from sep w (x @ rest) = split_on_from sep (w @ x) rest"
  by (induction x arbitrary: w) auto

lemma split_on_from_join:
  "xs \<noteq> [] \<Longrightarrow> \<forall>x\<in>set xs. sep \<notin> set x \<Longrightarrow>
     split_on_from sep w (join [sep] xs) = (w @ hd xs) # tl xs"
proof (induction xs arbitrary: w)
  case Nil
  then show ?case by simp
next
  case (Cons x xs)
  show ?case
  proof (cases xs)
    case Nil
    with Cons.prems split_on_from_append[of sep x w "[]"] show ?thesis by simp
  next
    case (Cons y ys)
    with Cons.prems Cons.IH[of "[]"] split_on_from_append[of sep x w "sep # join [sep] (y # ys)"]
    show ?thesis by simp
  qed
qed

lemma split_on_join:
  "xs \<noteq> [] \<Longrightarrow> \<forall>x\<in>set xs. sep \<notin> set x \<Longrightarrow> split_on sep (join [sep] xs) = xs"
  by (simp add: split_on_def split_on_from_join)

lemma percent_loop_header:
  "\<forall>h\<in>set header. startswith h ''%'' \<Longrightarrow>
     percent_loop i (header @ rest) (fm, cs) =
       percent_loop (i + length header) rest
         (foldl (\<lambda>fm line. case percent_entry line of Some (key, val) \<Rightarrow> AList.update key val fm
                                                     | None \<Rightarrow> fm) fm header,
          if header = [] then cs else i + length header)"
  by (induction header arbitrary: i fm cs) (auto split: option.splits)

lemma percent_loop_stop:
  "rest = [] \<or> \<not> startswith (hd rest) ''%'' \<Longrightarrow> percent_loop i rest st = st"
  by (cases rest; cases st) auto

lemma join_Cons: "join sep (x # xs) = (if xs = [] then x else x @ sep @ join sep xs)"
  by (cases xs) simp_all

lemma startswith_percent_join:
  assumes "startswith h ''%''"
  shows "startswith (join sep (h # t)) ''%''" and "\<not> startswith (join sep (h # t)) ''---''"
proof -
  from assms obtain h' where h: "h = CHR ''%'' # h'"
    by (cases h) (auto simp: startswith_def)
  show "startswith (join sep (h # t)) ''%''"
    by (simp add: join_Cons h startswith_def)
  show "\<not> startswith (join sep (h # t)) ''---''"
    by (simp add: join_Cons h startswith_def)
qed

lemma parse_legacy:
  assumes hdr: "header \<noteq> []" "\<forall>h\<in>set header. startswith h ''%''"
    and rest: "rest = [] \<or> \<not> startswith (hd rest) ''%''"
    and nl: "\<forall>x\<in>set (header @ rest). no_newline x"
  shows "parse_frontmatter e (join newline (header @ rest)) =
           (Some (header_entries header), strip (join newline rest), [])"
proof -
  obtain h t where ht: "header @ rest = h # t" "startswith h ''%''"
    using hdr by (cases header) auto
  have sw: "startswith (join newline (header @ rest)) ''%''"
       "\<not> startswith (join newline (header @ rest)) ''---''"
    unfolding ht(1) using startswith_percent_join[OF ht(2)] by blast+
  have lines: "split_on (CHR 0x0A) (join newline (header @ rest)) = header @ rest"
    unfolding newline_def using hdr(1) nl by (intro split_on_join) (auto simp: no_newline_def)
  have loop: "percent_loop 0 (header @ rest) ([], 0) = (header_entries header, length header)"
    using percent_loop_header[OF hdr(2), of 0 rest "[]" 0] percent_loop_stop[OF rest] hdr(1)
    by (simp add: header_entries_def)
  show ?thesis
    using sw by (simp add: parse_frontmatter_def lines[unfolded newline_def] loop Let_def newline_def)
qed


subsection \<open>Stripping\<close>

lemma dropWhile_append_stop:
  "\<not> P c \<Longrightarrow> dropWhile P (xs @ c # ys) = dropWhile P xs @ c # ys"
  by (induction xs) auto

lemma rstrip_append_stop:
  "\<not> P c \<Longrightarrow> rev (dropWhile P (rev (xs @ c # ys))) = xs @ c # rev (dropWhile P (rev ys))"
  by (simp add: dropWhile_append_stop)

lemma lstrip_rstrip_commute:
  "dropWhile P (rev (dropWhile P (rev s))) = rev (dropWhile P (rev (dropWhile P s)))"
proof (cases "\<forall>x\<in>set s. P x")
  case True
  then have e: "dropWhile P s = []" "dropWhile P (rev s) = []" by simp_all
  show ?thesis unfolding e by simp
next
  case False
  then obtain a x r where s: "s = a @ x # r" and a: "\<forall>y\<in>set a. P y" and x: "\<not> P x"
    using split_list_first_prop[of s "\<lambda>x. \<not> P x"] by auto
  have l: "dropWhile P s = x # r" using a x by (simp add: s dropWhile_append2)
  have r1: "rev (dropWhile P (rev s)) = a @ x # rev (dropWhile P (rev r))"
    unfolding s using rstrip_append_stop[of P x a r] x by simp
  have "dropWhile P (rev (dropWhile P (rev s))) = x # rev (dropWhile P (rev r))"
    unfolding r1 using a x by (simp add: dropWhile_append2)
  moreover have "rev (dropWhile P (rev (dropWhile P s))) = x # rev (dropWhile P (rev r))"
    unfolding l using rstrip_append_stop[of P x "[]" r] x by simp
  ultimately show ?thesis by simp
qed

lemma strip_where_lstrip: "strip_where P (dropWhile P s) = strip_where P s"
  by (simp add: strip_where_def)

lemma strip_where_rstrip: "strip_where P (rev (dropWhile P (rev s))) = strip_where P s"
  unfolding strip_where_def lstrip_rstrip_commute[of P s] by simp

lemma set_strip_where: "set (strip_where P s) \<subseteq> set s"
proof -
  have "set (dropWhile P (rev (dropWhile P s))) \<subseteq> set (rev (dropWhile P s))"
    by (rule set_dropWhileD[THEN subsetI]) 
  also have "\<dots> \<subseteq> set s" using set_dropWhileD[of _ P s] by auto
  finally show ?thesis by (simp add: strip_where_def)
qed

lemma takeWhile_until:
  "c \<notin> set L \<Longrightarrow> takeWhile (\<lambda>x. x \<noteq> c) (L @ c # R) = L"
  by (induction L) auto

lemma dropWhile_until:
  "c \<notin> set L \<Longrightarrow> dropWhile (\<lambda>x. x \<noteq> c) (L @ c # R) = c # R"
  by (induction L) auto

lemma percent_entry_key_value:
  assumes "CHR '':'' \<notin> set pre"
  shows "percent_entry (CHR ''%'' # pre @ '':'' @ post) =
           Some (replace (CHR '' '') ''_'' (lower (strip pre)), strip post)"
proof -
  have ns: "\<not> isspace (CHR '':'')" by (simp add: isspace_def)
  define L where "L = dropWhile isspace pre"
  define R where "R = rev (dropWhile isspace (rev post))"
  have lc: "strip (pre @ CHR '':'' # post) = L @ CHR '':'' # R"
    using ns by (simp add: strip_def strip_where_def dropWhile_append_stop L_def R_def)
  have Lc: "CHR '':'' \<notin> set L" using assms set_dropWhileD[of _ isspace pre] by (auto simp: L_def)
  have tk: "takeWhile (\<lambda>c. c \<noteq> CHR '':'') (L @ CHR '':'' # R) = L"
    using Lc by (rule takeWhile_until)
  have dr: "dropWhile (\<lambda>c. c \<noteq> CHR '':'') (L @ CHR '':'' # R) = CHR '':'' # R"
    using Lc by (rule dropWhile_until)
  have k: "strip L = strip pre" by (simp add: strip_def L_def strip_where_lstrip)
  have v: "strip R = strip post" by (simp add: strip_def R_def strip_where_rstrip)
  show ?thesis
    by (simp add: percent_entry_def lc tk dr k v Let_def)
qed

lemma percent_entry_no_colon:
  assumes "CHR '':'' \<notin> set t"
  shows "percent_entry (CHR ''%'' # t) = None"
proof -
  have "CHR '':'' \<notin> set (strip t)" using assms set_strip_where[of isspace t] by (auto simp: strip_def)
  then show ?thesis by (simp add: percent_entry_def Let_def)
qed

subsection \<open>Every document is the join of its lines\<close>

lemma split_on_from_nonempty: "split_on_from sep w s \<noteq> []"
  by (induction s arbitrary: w) auto

lemma join_split_on_from: "join [sep] (split_on_from sep w s) = w @ s"
proof (induction s arbitrary: w)
  case Nil
  then show ?case by simp
next
  case (Cons c cs)
  then show ?case by (simp add: join_Cons split_on_from_nonempty)
qed

lemma split_on_from_no_sep_all:
  "sep \<notin> set w \<Longrightarrow> \<forall>x\<in>set (split_on_from sep w s). sep \<notin> set x"
proof (induction s arbitrary: w)
  case Nil
  then show ?case by simp
next
  case (Cons a s)
  show ?case
  proof (cases "a = sep")
    case True
    with Cons.prems Cons.IH[of "[]"] show ?thesis by simp
  next
    case False
    with Cons.prems Cons.IH[of "w @ [a]"] show ?thesis by simp
  qed
qed

lemma split_on_from_no_sep:
  "sep \<notin> set w \<Longrightarrow> x \<in> set (split_on_from sep w s) \<Longrightarrow> sep \<notin> set x"
  using split_on_from_no_sep_all by blast

lemma split_on_from_hd: "prefix w (hd (split_on_from sep w s))"
  by (induction s arbitrary: w) (auto dest: append_prefixD)

lemma legacy_document_shape:
  assumes "startswith content ''%''"
  shows "\<exists>header rest. content = join newline (header @ rest) \<and> header \<noteq> []
           \<and> (\<forall>h\<in>set header. startswith h ''%'')
           \<and> (rest = [] \<or> \<not> startswith (hd rest) ''%'')
           \<and> (\<forall>x\<in>set (header @ rest). no_newline x)"
proof -
  define lines where "lines = split_on (CHR 0x0A) content"
  define header where "header = takeWhile (\<lambda>l. startswith l ''%'') lines"
  define rest where "rest = dropWhile (\<lambda>l. startswith l ''%'') lines"
  from assms obtain c' where c: "content = CHR ''%'' # c'"
    by (cases content) (auto simp: startswith_def)
  have ne: "lines \<noteq> []" by (simp add: lines_def split_on_def split_on_from_nonempty)
  obtain y where "hd lines = ''%'' @ y"
    using split_on_from_hd[of "''%''" "CHR 0x0A" c']
    by (auto simp: lines_def split_on_def c prefix_def)
  then have "startswith (hd lines) ''%''" by (simp add: startswith_def)
  with ne have h1: "header \<noteq> []" by (cases lines) (auto simp: header_def)
  have j: "content = join newline (header @ rest)"
    by (simp add: header_def rest_def lines_def split_on_def newline_def join_split_on_from)
  have h2: "\<forall>h\<in>set header. startswith h ''%''"
    using set_takeWhileD[of _ "\<lambda>l. startswith l ''%''" lines] by (auto simp: header_def)
  have r: "rest = [] \<or> \<not> startswith (hd rest) ''%''"
    using hd_dropWhile[of "\<lambda>l. startswith l ''%''" lines] by (auto simp: rest_def)
  have n: "\<forall>x\<in>set (header @ rest). no_newline x"
    using split_on_from_no_sep[of "CHR 0x0A" "[]" _ content]
    by (auto simp: header_def rest_def lines_def split_on_def no_newline_def)
  from j h1 h2 r n show ?thesis by blast
qed

text \<open>
  Claim C7: a document that starts with \<^verbatim>\<open>%\<close> is a non-empty run of header lines
  starting with \<^verbatim>\<open>%\<close>, followed by nothing or by a first line that does not start
  with \<^verbatim>\<open>%\<close> and any further lines. For every such document the frontmatter is the
  dictionary of the entries of the header lines, and the body is the stripped text of
  all lines from the first non-\<^verbatim>\<open>%\<close> line on, whether or not later lines start with
  \<^verbatim>\<open>%\<close>. A header line \<^verbatim>\<open>%pre:post\<close> with no colon in \<open>pre\<close> gives the entry
  whose key is \<open>pre\<close> trimmed, lower-cased, with spaces replaced by underscores, and whose
  value is \<open>post\<close> trimmed; a header line without a colon gives no entry.
\<close>

theorem C7_legacy_frontmatter:
  "(startswith content ''%'' \<longrightarrow>
      (\<exists>header rest. content = join newline (header @ rest) \<and> header \<noteq> []
           \<and> (\<forall>h\<in>set header. startswith h ''%'')
           \<and> (rest = [] \<or> \<not> startswith (hd rest) ''%'')
           \<and> (\<forall>x\<in>set (header @ rest). no_newline x)))
   \<and> (\<forall>header rest. header \<noteq> [] \<and> (\<forall>h\<in>set header. startswith h ''%'')
           \<and> (rest = [] \<or> \<not> startswith (hd rest) ''%'')
           \<and> (\<forall>x\<in>set (header @ rest). no_newline x) \<longrightarrow>
         parse_frontmatter e (join newline (header @ rest)) =
           (Some (header_entries header), strip (join newline rest), []))
   \<and> (\<forall>pre post. CHR '':'' \<notin> set pre \<longrightarrow>
         percent_entry (CHR ''%'' # pre @ '':'' @ post) =
           Some (replace (CHR '' '') ''_'' (lower (strip pre)), strip post))
   \<and> (\<forall>t. CHR '':'' \<notin> set t \<longrightarrow> percent_entry (CHR ''%'' # t) = None)"
proof (intro conjI allI impI)
  assume "startswith content ''%''"
  then show "\<exists>header rest. content = join newline (header @ rest) \<and> header \<noteq> []
           \<and> (\<forall>h\<in>set header. startswith h ''%'')
           \<and> (rest = [] \<or> \<not> startswith (hd rest) ''%'')
           \<and> (\<forall>x\<in>set (header @ rest). no_newline x)"
    by (rule legacy_document_shape)
next
  fix header rest
  assume "header \<noteq> [] \<and> (\<forall>h\<in>set header. startswith h ''%'')
           \<and> (rest = [] \<or> \<not> startswith (hd rest) ''%'')
           \<and> (\<forall>x\<in>set (header @ rest). no_newline x)"
  then show "parse_frontmatter e (join newline (header @ rest)) =
           (Some (header_entries header), strip (join newline rest), [])"
    using parse_legacy[of header rest e] by blast
next
  fix pre post
  assume "CHR '':'' \<notin> set pre"
  then show "percent_entry (CHR ''%'' # pre @ '':'' @ post) =
           Some (replace (CHR '' '') ''_'' (lower (strip pre)), strip post)"
    by (rule percent_entry_key_value)
next
  fix t
  assume "CHR '':'' \<notin> set t"
  then show "percent_entry (CHR ''%'' # t) = None"
    by (rule percent_entry_no_colon)
qed

theorem C7_legacy_frontmatter_witness:
  "startswith (join newline [''% Site Name: Grimoire'', ''% draft'', ''Body line'', ''% Not: header'']) ''%''
   \<and> parse_frontmatter (plain_files [])
         (join newline [''% Site Name: Grimoire'', ''% draft'', ''Body line'', ''% Not: header'']) =
       (Some [(''site_name'', ''Grimoire'')], ''Body line'' @ newline @ ''% Not: header'', [])"
proof -
  let ?header = "[''% Site Name: Grimoire'', ''% draft'']"
  let ?rest = "[''Body line'', ''% Not: header'']"
  have sw: "startswith (join newline (?header @ ?rest)) ''%''" by code_simp
  have h: "?header \<noteq> [] \<and> (\<forall>h\<in>set ?header. startswith h ''%'')
           \<and> (?rest = [] \<or> \<not> startswith (hd ?rest) ''%'')
           \<and> (\<forall>x\<in>set (?header @ ?rest). no_newline x)"
    by code_simp
  have fm: "header_entries ?header = [(''site_name'', ''Grimoire'')]" by code_simp
  have body: "strip (join newline ?rest) = ''Body line'' @ newline @ ''% Not: header''" by code_simp
  from C7_legacy_frontmatter[of "join newline (?header @ ?rest)" "plain_files []"] h
  have "parse_frontmatter (plain_files []) (join newline (?header @ ?rest)) =
           (Some (header_entries ?header), strip (join newline ?rest), [])"
    by blast
  with sw fm body show ?thesis by simp
qed

section \<open>Display names\<close>


lemma plain_upper_char: "plain_char (upper_char c) \<longleftrightarrow> plain_char c"
  unfolding plain_char_def using upper_char_cases[of c] letter_classes by metis

lemma plain_lower_char: "plain_char (lower_char c) \<longleftrightarrow> plain_char c"
  unfolding plain_char_def using lower_char_cases[of c] letter_classes by metis

lemma plain_word_upper: "plain_word w \<Longrightarrow> plain_word (upper w)"
  by (simp add: plain_word_def upper_def list_all_iff plain_upper_char)

lemma plain_word_lower: "plain_word w \<Longrightarrow> plain_word (lower w)"
  by (simp add: plain_word_def lower_def list_all_iff plain_lower_char)

lemma plain_word_capitalize: "plain_word w \<Longrightarrow> plain_word (capitalize w)"
  by (cases w) (simp_all add: plain_word_def capitalize_def list_all_iff plain_lower_char plain_upper_char)

lemma plain_word_cased: "plain_word w \<Longrightarrow> plain_word (cased_word acros b w)"
  by (simp add: cased_word_def plain_word_upper plain_word_lower plain_word_capitalize)

lemma lower_upper: "lower (upper w) = lower w"
  by (simp add: lower_def upper_def lower_upper_char)

lemma upper_upper: "upper (upper w) = upper w"
  by (simp add: upper_def upper_upper_char)

lemma lower_lower: "lower (lower w) = lower w"
  by (simp add: lower_def lower_lower_char)

lemma lower_capitalize: "lower (capitalize w) = lower w"
  by (cases w) (simp_all add: lower_def capitalize_def lower_upper_char lower_lower_char)

lemma capitalize_capitalize: "capitalize (capitalize w) = capitalize w"
  by (cases w) (simp_all add: capitalize_def upper_upper_char lower_lower_char)

lemma not_isupper_lower: "\<not> isupper (lower w)"
  by (simp add: isupper_def lower_def list_ex_iff isupper_lower_char)

lemma cased_word_idem: "cased_word acros b (cased_word acros b w) = cased_word acros b w"
proof -
  consider (A) "lower w \<in> acros"
    | (B) "lower w \<notin> acros" "2 \<le> length w \<and> isupper w"
    | (C) "lower w \<notin> acros" "\<not> (2 \<le> length w \<and> isupper w)" "\<not> b \<and> lower w \<in> set function_words"
    | (D) "lower w \<notin> acros" "\<not> (2 \<le> length w \<and> isupper w)" "\<not> (\<not> b \<and> lower w \<in> set function_words)"
    by blast
  then show ?thesis
  proof cases
    case A
    then show ?thesis by (simp add: cased_word_def lower_upper upper_upper)
  next
    case B
    then show ?thesis by (simp add: cased_word_def)
  next
    case C
    then have "cased_word acros b w = lower w" by (auto simp: cased_word_def)
    moreover have "cased_word acros b (lower w) = lower w"
      using C by (simp add: cased_word_def lower_lower not_isupper_lower)
    ultimately show ?thesis by simp
  next
    case D
    then have 1: "cased_word acros b w = capitalize w" by (auto simp: cased_word_def)
    have "cased_word acros b (capitalize w) = capitalize w"
      using D by (auto simp: cased_word_def lower_capitalize capitalize_capitalize)
    with 1 show ?thesis by simp
  qed
qed

subsection \<open>Splitting a text made of words\<close>

lemma split_from_word:
  "\<forall>c\<in>set x. \<not> isspace c \<Longrightarrow> split_from w (x @ s) = split_from (w @ x) s"
  by (induction x arbitrary: w) auto

lemma plain_word_no_space: "plain_word w \<Longrightarrow> \<forall>c\<in>set w. \<not> isspace c"
  by (simp add: plain_word_def plain_char_def list_all_iff)

lemma split_join_words:
  "\<forall>w\<in>set ws. plain_word w \<Longrightarrow> split (join '' '' ws) = ws"
proof (induction ws)
  case Nil
  then show ?case by (simp add: split_def)
next
  case (Cons o1 os)
  have sp: "isspace (CHR '' '')" by (simp add: isspace_def)
  from Cons.prems have o1: "o1 \<noteq> []" "\<forall>c\<in>set o1. \<not> isspace c"
    using plain_word_no_space[of o1] by (simp_all add: plain_word_def)
  show ?case
  proof (cases os)
    case Nil
    with o1 split_from_word[of o1 "[]" "[]"] show ?thesis by (simp add: split_def)
  next
    case (Cons o2 os')
    have "split (join '' '' (o1 # os)) = split_from [] (o1 @ CHR '' '' # join '' '' os)"
      by (simp add: split_def Cons)
    also have "\<dots> = split_from o1 (CHR '' '' # join '' '' os)"
      using split_from_word[OF o1(2), of "[]"] by simp
    also have "\<dots> = o1 # split (join '' '' os)"
      using o1(1) sp by (simp add: split_def)
    also have "\<dots> = o1 # os" using Cons.IH Cons.prems by simp
    finally show ?thesis .
  qed
qed

lemma split_from_words:
  "\<forall>c\<in>set w. \<not> isspace c \<Longrightarrow>
     \<forall>x\<in>set (split_from w s). x \<noteq> [] \<and> (\<forall>c\<in>set x. \<not> isspace c) \<and> set x \<subseteq> set w \<union> set s"
proof (induction s arbitrary: w)
  case Nil
  then show ?case by simp
next
  case (Cons a s)
  show ?case
  proof (cases "isspace a")
    case True
    with Cons.prems Cons.IH[of "[]"] show ?thesis by auto
  next
    case False
    with Cons.prems Cons.IH[of "w @ [a]"] show ?thesis by auto
  qed
qed

lemma split_plain_words:
  assumes "CHR ''-'' \<notin> set s" "CHR ''_'' \<notin> set s"
  shows "\<forall>w\<in>set (split s). plain_word w"
  using split_from_words[of "[]" s] assms
  by (fastforce simp: split_def plain_word_def plain_char_def list_all_iff)

lemma set_replace: "set (replace a b s) \<subseteq> (set s - {a}) \<union> set b"
  by (auto simp: replace_def split: if_splits)

lemma replace_absent: "a \<notin> set s \<Longrightarrow> replace a b s = s"
  by (induction s) (auto simp: replace_def)

lemma set_join: "set (join sep ws) \<subseteq> set sep \<union> \<Union> (set ` set ws)"
  by (induction sep ws rule: join.induct) auto


lemma cased_words_plain:
  assumes "\<forall>w\<in>set ws. plain_word w"
  shows "\<forall>w\<in>set (map (\<lambda>(j, w). cased_word acros (j = 0) w) (enumerate n ws)). plain_word w"
proof
  fix w assume "w \<in> set (map (\<lambda>(j, w). cased_word acros (j = 0) w) (enumerate n ws))"
  then obtain j w' where jw: "(j, w') \<in> set (enumerate n ws)" "w = cased_word acros (j = 0) w'"
    by auto
  from jw(1) have "snd (j, w') \<in> set (map snd (enumerate n ws))"
    unfolding set_map by (rule imageI)
  then have "w' \<in> set ws" by simp
  with assms have "plain_word w'" by blast
  then show "plain_word w" unfolding jw(2) by (rule plain_word_cased)
qed

lemma cased_words_idem:
  "map (\<lambda>(j, w). cased_word acros (j = 0) w)
     (enumerate 0 (map (\<lambda>(j, w). cased_word acros (j = 0) w) (enumerate 0 ws)))
   = map (\<lambda>(j, w). cased_word acros (j = 0) w) (enumerate 0 ws)"
proof (rule nth_equalityI)
  show "length (map (\<lambda>(j, w). cased_word acros (j = 0) w)
     (enumerate 0 (map (\<lambda>(j, w). cased_word acros (j = 0) w) (enumerate 0 ws))))
     = length (map (\<lambda>(j, w). cased_word acros (j = 0) w) (enumerate 0 ws))"
    by simp
next
  fix i
  assume "i < length (map (\<lambda>(j, w). cased_word acros (j = 0) w)
     (enumerate 0 (map (\<lambda>(j, w). cased_word acros (j = 0) w) (enumerate 0 ws))))"
  then have i: "i < length ws" by simp
  then show "map (\<lambda>(j, w). cased_word acros (j = 0) w)
     (enumerate 0 (map (\<lambda>(j, w). cased_word acros (j = 0) w) (enumerate 0 ws))) ! i
     = map (\<lambda>(j, w). cased_word acros (j = 0) w) (enumerate 0 ws) ! i"
    by (simp add: nth_enumerate_eq cased_word_idem)
qed

lemma join_words_chars:
  assumes "\<forall>w\<in>set out. plain_word w" and "c \<in> set (join '' '' out)"
  shows "c = CHR '' '' \<or> plain_char c"
proof -
  from assms(2) have "c \<in> set '' '' \<union> \<Union> (set ` set out)"
    using set_join[of "'' ''" out] by blast
  then consider "c = CHR '' ''" | w where "w \<in> set out" "c \<in> set w" by auto
  then show ?thesis
  proof cases
    case 1
    then show ?thesis by simp
  next
    case 2
    with assms(1) have "plain_word w" by blast
    with 2(2) have "plain_char c" by (simp add: plain_word_def list_all_iff)
    then show ?thesis by simp
  qed
qed

lemma join_words_no_hyphen:
  assumes "\<forall>w\<in>set out. plain_word w"
  shows "CHR ''-'' \<notin> set (join '' '' out)" and "CHR ''_'' \<notin> set (join '' '' out)"
proof -
  show "CHR ''-'' \<notin> set (join '' '' out)"
  proof
    assume "CHR ''-'' \<in> set (join '' '' out)"
    from join_words_chars[OF assms this] show False by (simp add: plain_char_def)
  qed
  show "CHR ''_'' \<notin> set (join '' '' out)"
  proof
    assume "CHR ''_'' \<in> set (join '' '' out)"
    from join_words_chars[OF assms this] show False by (simp add: plain_char_def)
  qed
qed



lemma capitalize_with_acronyms_idem:
  fixes d :: string and acros :: "string set"
  assumes "CHR ''-'' \<notin> set d" "CHR ''_'' \<notin> set d"
  shows "capitalize_with_acronyms (capitalize_with_acronyms d acros) acros
           = capitalize_with_acronyms d acros"
    and "CHR ''-'' \<notin> set (capitalize_with_acronyms d acros)"
    and "CHR ''_'' \<notin> set (capitalize_with_acronyms d acros)"
proof -
  define out where "out = map (\<lambda>(j, w). cased_word acros (j = 0) w) (enumerate 0 (split d))"
  have y: "capitalize_with_acronyms d acros = join '' '' out"
    unfolding out_def by (rule capitalize_with_acronyms_words)
  have ws: "\<forall>w\<in>set (split d). plain_word w"
    using assms by (rule split_plain_words)
  have out: "\<forall>w\<in>set out. plain_word w"
    unfolding out_def using ws by (rule cased_words_plain)
  have sy: "split (join '' '' out) = out" using out by (rule split_join_words)
  have "capitalize_with_acronyms (join '' '' out) acros
          = join '' '' (map (\<lambda>(j, w). cased_word acros (j = 0) w) (enumerate 0 (split (join '' '' out))))"
    by (rule capitalize_with_acronyms_words)
  also have "\<dots> = join '' '' (map (\<lambda>(j, w). cased_word acros (j = 0) w) (enumerate 0 out))"
    unfolding sy ..
  also have "\<dots> = join '' '' out"
    unfolding out_def cased_words_idem ..
  finally show "capitalize_with_acronyms (capitalize_with_acronyms d acros) acros
           = capitalize_with_acronyms d acros"
    unfolding y .
  show "CHR ''-'' \<notin> set (capitalize_with_acronyms d acros)"
    unfolding y using out by (rule join_words_no_hyphen(1))
  show "CHR ''_'' \<notin> set (capitalize_with_acronyms d acros)"
    unfolding y using out by (rule join_words_no_hyphen(2))
qed

text \<open>
  Claim C6, as stated, fails. Without overrides, \<^verbatim>\<open>1-2-x\<close> formats to \<^verbatim>\<open>2 X\<close>, which
  formats to \<^verbatim>\<open>X\<close>; the valid name \<^verbatim>\<open>-1-x\<close>, which has no number prefix to strip,
  formats to \<^verbatim>\<open>1 X\<close>, which formats to \<^verbatim>\<open>X\<close>. With an override map, an override's
  value can itself be an override key.
\<close>

theorem C6_format_not_idempotent:
  "is_valid_name ''1-2-x''
   \<and> format_display_name (format_display_name ''1-2-x'' True {} Map.empty) True {} Map.empty
       \<noteq> format_display_name ''1-2-x'' True {} Map.empty
   \<and> is_valid_name ''-1-x'' \<and> strip_number_prefix ''-1-x'' = ''-1-x''
   \<and> format_display_name (format_display_name ''-1-x'' True {} Map.empty) True {} Map.empty
       \<noteq> format_display_name ''-1-x'' True {} Map.empty
   \<and> format_display_name
         (format_display_name ''api'' True {} [''api'' \<mapsto> ''rest'', ''rest'' \<mapsto> ''Other''])
         True {} [''api'' \<mapsto> ''rest'', ''rest'' \<mapsto> ''Other'']
       \<noteq> format_display_name ''api'' True {} [''api'' \<mapsto> ''rest'', ''rest'' \<mapsto> ''Other'']"
proof -
  have 1: "is_valid_name ''1-2-x''" by code_simp
  have 2: "format_display_name ''1-2-x'' True {} Map.empty = ''2 X''" by code_simp
  have 3: "format_display_name ''2 X'' True {} Map.empty = ''X''" by code_simp
  have 4: "is_valid_name ''-1-x''" by code_simp
  have 5: "strip_number_prefix ''-1-x'' = ''-1-x''" by code_simp
  have 6: "format_display_name ''-1-x'' True {} Map.empty = ''1 X''" by code_simp
  have 7: "format_display_name ''1 X'' True {} Map.empty = ''X''" by code_simp
  have 8: "format_display_name ''api'' True {} [''api'' \<mapsto> ''rest'', ''rest'' \<mapsto> ''Other''] = ''rest''"
    by (simp add: format_display_name_def)
  have 9: "format_display_name ''rest'' True {} [''api'' \<mapsto> ''rest'', ''rest'' \<mapsto> ''Other''] = ''Other''"
    by (simp add: format_display_name_def)
  show ?thesis unfolding 2 3 6 7 8 9 using 1 4 5 by simp
qed

text \<open>
  Claim C6, amended: with stripping enabled, for every name \<open>x\<close> of ASCII characters,
  every acronym set and every override map such that neither \<open>x\<close>, nor \<open>x\<close> without
  its number prefix, nor the formatted name is an override key, and the formatted name
  does not itself begin with a number prefix, formatting the formatted name again gives
  the formatted name. (Outside ASCII the case conversions of Python are not covered by
  this theory, and the statement is restricted to the names it models exactly.)
\<close>

theorem C6_format_idempotent_on_prefix_free_result:
  assumes "is_ascii x"
    and "overrides x = None" and "overrides (strip_number_prefix x) = None"
    and "overrides (format_display_name x True acros overrides) = None"
    and "strip_number_prefix (format_display_name x True acros overrides)
           = format_display_name x True acros overrides"
  shows "format_display_name (format_display_name x True acros overrides) True acros overrides
           = format_display_name x True acros overrides"
proof -
  define d where "d = replace (CHR ''_'') '' '' (replace (CHR ''-'') '' '' (strip_number_prefix x))"
  define y where "y = capitalize_with_acronyms d acros"
  have fx: "format_display_name x True acros overrides = y"
    using assms(2,3) by (simp add: format_display_name_def Let_def y_def d_def)
  have d1: "CHR ''_'' \<notin> set d"
    using set_replace[of "CHR ''_''" "'' ''" "replace (CHR ''-'') '' '' (strip_number_prefix x)"]
    unfolding d_def by auto
  have "CHR ''-'' \<notin> set (replace (CHR ''-'') '' '' (strip_number_prefix x))"
    using set_replace[of "CHR ''-''" "'' ''" "strip_number_prefix x"] by auto
  then have d2: "CHR ''-'' \<notin> set d"
    using set_replace[of "CHR ''_''" "'' ''" "replace (CHR ''-'') '' '' (strip_number_prefix x)"]
    unfolding d_def by auto
  note idem = capitalize_with_acronyms_idem[OF d2 d1, of acros, folded y_def]
  have r: "replace (CHR ''_'') '' '' (replace (CHR ''-'') '' '' y) = y"
    using idem(2,3) by (simp add: replace_absent)
  have oy: "overrides y = None" and sy: "strip_number_prefix y = y"
    using assms(4,5) unfolding fx by simp_all
  have "format_display_name y True acros overrides = y"
    by (simp add: format_display_name_def Let_def oy sy r idem(1))
  then show ?thesis unfolding fx .
qed


theorem C6_format_idempotent_witness:
  "is_ascii ''01-api_testing of TO-DO''
   \<and> Map.empty ''01-api_testing of TO-DO'' = (None :: string option)
   \<and> format_display_name ''01-api_testing of TO-DO'' True {''api''} Map.empty = ''API Testing of TO DO''
   \<and> strip_number_prefix ''API Testing of TO DO'' = ''API Testing of TO DO''
   \<and> format_display_name ''API Testing of TO DO'' True {''api''} Map.empty = ''API Testing of TO DO''"
proof -
  have a: "is_ascii ''01-api_testing of TO-DO''" by code_simp
  have f: "format_display_name ''01-api_testing of TO-DO'' True {''api''} Map.empty = ''API Testing of TO DO''"
    by code_simp
  have s: "strip_number_prefix ''API Testing of TO DO'' = ''API Testing of TO DO''"
    by code_simp
  have "format_display_name (format_display_name ''01-api_testing of TO-DO'' True {''api''} Map.empty)
          True {''api''} Map.empty
        = format_display_name ''01-api_testing of TO-DO'' True {''api''} Map.empty"
    by (rule C6_format_idempotent_on_prefix_free_result[OF a]) (simp_all add: f s)
  then show ?thesis unfolding f using a f s by simp
qed

section \<open>Navigation links\<close>


lemma val_pages_update:
  "val_pages (Node (AList.update k v d)) \<subseteq> val_pages v \<union> val_pages (Node d)"
proof -
  have "set (AList.update k v d) \<subseteq> insert (k, v) (set d)"
    by (induction d) auto
  then show ?thesis by fastforce
qed

lemma val_pages_lookup: "map_of d k = Some v \<Longrightarrow> val_pages v \<subseteq> val_pages (Node d)"
  by (auto dest!: map_of_SomeD intro!: bexI[of _ "(k, v)"])

lemma append_page_pages:
  assumes "append_page cur p = Inr t"
  shows "val_pages t \<subseteq> insert p (val_pages cur)"
proof (cases cur)
  case (Node d)
  with assms obtain ps where ps: "map_of d pages_key = Some (Pages ps)"
      and t: "t = Node (AList.update pages_key (Pages (ps @ [p])) d)"
    by (auto simp: append_page_def split: option.splits val.splits)
  from val_pages_lookup[OF ps] val_pages_update[of pages_key "Pages (ps @ [p])" d]
  show ?thesis unfolding t Node by auto
qed (use assms in \<open>simp_all add: append_page_def\<close>)

lemma walk_pages:
  "walk cur i raws lvls p = Inr t \<Longrightarrow> val_pages t \<subseteq> insert p (val_pages cur)"
proof (induction raws arbitrary: cur i t)
  case Nil
  then show ?case by (simp add: append_page_pages)
next
  case (Cons r rest)
  from Cons.prems obtain d where cur: "cur = Node d"
    by (cases cur) (auto split: if_splits)
  show ?case
  proof (cases "contains cur r")
    case False
    with Cons.prems cur obtain child where
      c: "walk (Node [(display_key, Display (lvls ! i)), (pages_key, Pages [])]) (Suc i) rest lvls p = Inr child"
      and t: "t = Node (AList.update r child d)"
      by (auto split: if_splits sum.splits)
    from Cons.IH[OF c] have "val_pages child \<subseteq> {p}" by auto
    with val_pages_update[of r child d] show ?thesis unfolding t cur by auto
  next
    case True
    with Cons.prems cur obtain nxt child where
      n: "map_of d r = Some nxt" and c: "walk nxt (Suc i) rest lvls p = Inr child"
      and t: "t = Node (AList.update r child d)"
      by (auto split: if_splits sum.splits option.splits)
    from Cons.IH[OF c] val_pages_lookup[OF n] val_pages_update[of r child d]
    show ?thesis unfolding t cur by auto
  qed
qed

lemma add_page_pages:
  assumes "add_page tree p = Inr t"
  shows "val_pages t \<subseteq> insert p (val_pages tree)"
proof (cases "levels_raw p = []")
  case False
  with assms show ?thesis by (simp add: add_page_def walk_pages)
next
  case True
  with assms obtain d where d: "tree = Node d"
    by (cases tree) (auto simp: add_page_def)
  let ?t1 = "if pages_key \<notin> fst ` set d then Node (AList.update pages_key (Pages []) d) else tree"
  from assms True d have "append_page ?t1 p = Inr t" by (auto simp: add_page_def)
  from append_page_pages[OF this] have "val_pages t \<subseteq> insert p (val_pages ?t1)" .
  moreover have "val_pages ?t1 \<subseteq> val_pages tree"
    using val_pages_update[of pages_key "Pages []" d] d by auto
  ultimately show ?thesis by blast
qed

lemma build_loop_pages:
  "build_loop pages tree = Inr t \<Longrightarrow> val_pages t \<subseteq> val_pages tree \<union> set pages"
proof (induction pages arbitrary: tree)
  case Nil
  then show ?case by simp
next
  case (Cons p pages)
  from Cons.prems obtain t1 where a: "add_page tree p = Inr t1" and b: "build_loop pages t1 = Inr t"
    by (auto split: sum.splits)
  from Cons.IH[OF b] add_page_pages[OF a] show ?case by auto
qed

lemma build_tree_pages: "build_tree pages = Inr t \<Longrightarrow> val_pages t \<subseteq> set pages"
  using build_loop_pages[of pages "Node []" t] by (simp add: build_tree_def)

lemma sequence_parts:
  "sequence xs = Inr ys \<Longrightarrow> part \<in> set ys \<Longrightarrow> \<exists>a. Inr a \<in> set xs \<and> part \<in> set a"
proof (induction xs arbitrary: ys)
  case Nil
  then show ?case by simp
next
  case (Cons x xs)
  from Cons.prems(1) obtain a b where x: "x = Inr a" and b: "sequence xs = Inr b" and ys: "ys = a @ b"
    by (auto split: sum.splits)
  from Cons.prems(2) ys consider "part \<in> set a" | "part \<in> set b" by auto
  then show ?case
  proof cases
    case 1
    with x show ?thesis by auto
  next
    case 2
    from Cons.IH[OF b 2] show ?thesis by auto
  qed
qed

lemma sorted_pages_sub: "sorted_pages d = Inr ps \<Longrightarrow> set ps \<subseteq> val_pages (Node d)"
proof -
  assume a: "sorted_pages d = Inr ps"
  show ?thesis
  proof (cases "map_of d pages_key")
    case None
    with a show ?thesis by (simp add: sorted_pages_def)
  next
    case (Some v)
    from val_pages_lookup[OF Some] a Some show ?thesis
      by (cases v) (auto simp: sorted_pages_def split: if_splits)
  qed
qed

lemma subfolders_sub: "kv \<in> set (subfolders d) \<Longrightarrow> val_pages (snd kv) \<subseteq> val_pages (Node d)"
  by (auto simp: subfolders_def)

lemma is_link_simps:
  "is_link (Nav_item h c i t b)" "is_link (Root_item h i t b)"
  "\<not> is_link (Category_open x y z)" "\<not> is_link Category_close"
  "\<not> is_link (Subcategory_open x y)" "\<not> is_link Subcategory_close"
  "\<not> is_link (Deep_open n x y)" "\<not> is_link Deep_close"
  by (simp_all add: is_link_def)

lemma render_sublevel_links:
  "render_sublevel bm node pid lvl pre = Inr parts \<Longrightarrow> part \<in> set parts \<Longrightarrow> is_link part
     \<Longrightarrow> \<exists>p\<in>val_pages node. is_link_of pre p part"
proof (induction bm node pid lvl pre arbitrary: parts part rule: render_sublevel.induct)
  case (1 bm d pid lvl pre)
  define F where "F = (\<lambda>kv. (let folder_id = pid @ ''-'' @ slug (fst kv)
                      in case escaped_display (fst kv) (snd kv) of
                           Inl err \<Rightarrow> Inl err
                         | Inr folder_display \<Rightarrow>
                             (case render_sublevel bm (snd kv) folder_id (Suc lvl) pre of
                                Inl err \<Rightarrow> Inl err
                              | Inr inner \<Rightarrow>
                                  Inr (if lvl = 1
                                       then [Subcategory_open folder_id folder_display]
                                              @ inner @ [Subcategory_close]
                                       else [Deep_open lvl folder_id folder_display]
                                              @ inner @ [Deep_close]))))"
  define G where "G = (\<lambda>page :: page. Nav_item (pre @ url page)
                                   (if 0 < lvl then ''nav-item-depth-'' @ str_nat lvl
                                    else ''nav-item'')
                                   (page_id page) (html_escape (title page)) bm)"
  have eq: "render_sublevel bm (Node d) pid lvl pre =
      (case sorted_pages d of Inl err \<Rightarrow> Inl err
       | Inr pages \<Rightarrow> (case sequence (map F (subfolders d)) of Inl err \<Rightarrow> Inl err
                          | Inr folder_parts \<Rightarrow> Inr (folder_parts @ map G pages)))"
    unfolding F_def G_def by (rule render_sublevel.simps(1))
  from "1.prems"(1) obtain pages folder_parts where
    sp: "sorted_pages d = Inr pages"
    and sq: "sequence (map F (subfolders d)) = Inr folder_parts"
    and parts: "parts = folder_parts @ map G pages"
    unfolding eq by (auto split: sum.splits)
  from "1.prems"(2) parts consider (folder) "part \<in> set folder_parts"
    | (page) p where "p \<in> set pages" "part = G p"
    by auto
  then show ?case
  proof cases
    case page
    from page(1) sorted_pages_sub[OF sp] have "p \<in> val_pages (Node d)" by blast
    moreover have "is_link_of pre p part" unfolding page(2) G_def by (simp add: is_link_of_def)
    ultimately show ?thesis by blast
  next
    case folder
    from sequence_parts[OF sq folder] obtain a where a: "Inr a \<in> set (map F (subfolders d))"
      and pa: "part \<in> set a"
      by blast
    from a obtain kv where kv: "kv \<in> set (subfolders d)" and fa: "F kv = Inr a"
      by auto
    from fa obtain disp inner where
      disp: "escaped_display (fst kv) (snd kv) = Inr disp"
      and inner: "render_sublevel bm (snd kv) (pid @ ''-'' @ slug (fst kv)) (Suc lvl) pre = Inr inner"
      and a': "a = (if lvl = 1
                    then [Subcategory_open (pid @ ''-'' @ slug (fst kv)) disp] @ inner @ [Subcategory_close]
                    else [Deep_open lvl (pid @ ''-'' @ slug (fst kv)) disp] @ inner @ [Deep_close])"
      unfolding F_def Let_def by (auto split: sum.splits)
    have "part \<in> set inner"
    proof (cases "lvl = 1")
      case True
      with pa a' have "part = Subcategory_open (pid @ ''-'' @ slug (fst kv)) disp
          \<or> part \<in> set inner \<or> part = Subcategory_close" by auto
      with "1.prems"(3) show ?thesis by (auto simp: is_link_simps)
    next
      case False
      with pa a' have "part = Deep_open lvl (pid @ ''-'' @ slug (fst kv)) disp
          \<or> part \<in> set inner \<or> part = Deep_close" by auto
      with "1.prems"(3) show ?thesis by (auto simp: is_link_simps)
    qed
    from "1.IH"[OF sp kv refl disp inner this "1.prems"(3)]
    obtain p where "p \<in> val_pages (snd kv)" "is_link_of pre p part" by blast
    with subfolders_sub[OF kv] show ?thesis by blast
  qed
qed simp_all

text \<open>
  Claim C8: for every page list and every relative depth \<open>d\<close>, each page link that
  \<^verbatim>\<open>generate_navigation_html_for_depth\<close> emits is the link of a page of the list, and
  its \<^verbatim>\<open>href\<close> is exactly \<open>d\<close> segments \<^verbatim>\<open>../\<close> followed by that page's url (no
  segment for a depth that is not positive).
\<close>

theorem C8_navigation_links_prefixed:
  assumes "generate_navigation_html_for_depth self d = Inr parts"
    and "part \<in> set parts" and "is_link part"
  shows "\<exists>p\<in>set (all_pages self). is_link_of (up_segments (nat d)) p part"
proof -
  define pre where "pre = (if 0 < d then concat (replicate (nat d) ''../'') else [])"
  have pre: "pre = up_segments (nat d)" by (simp add: pre_def up_segments_def)
  define F where "F = (\<lambda>kv. (let icon_class = get_category_icon (conf self) (fst kv);
                                       level1_id = slug (fst kv)
                                   in case escaped_display (fst kv) (snd kv) of
                                        Inl err \<Rightarrow> Inl err
                                      | Inr level1_display \<Rightarrow>
                                          (case render_sublevel (show_bookmarks (conf self))
                                                  (snd kv) level1_id 1 pre of
                                             Inl err \<Rightarrow> Inl err
                                           | Inr inner \<Rightarrow>
                                               Inr ([Category_open level1_id icon_class level1_display]
                                                    @ inner @ [Category_close]))))"
  define G where "G = (\<lambda>page :: page. Root_item (pre @ url page) (page_id page)
                                           (html_escape (title page)) (show_bookmarks (conf self)))"
  have eq: "generate_navigation_html_for_depth self d =
     (case build_tree (all_pages self) of
        Inl err \<Rightarrow> Inl err
      | Inr (Node tree) \<Rightarrow>
          (case sorted_pages tree of
                Inl err \<Rightarrow> Inl err
              | Inr root_pages \<Rightarrow>
                  (case sequence (map F (subfolders tree)) of
                     Inl err \<Rightarrow> Inl err
                   | Inr nav_html \<Rightarrow> Inr (nav_html @ map G root_pages)))
      | Inr _ \<Rightarrow> Inl AttributeError)"
    unfolding F_def G_def pre_def generate_navigation_html_for_depth_def Let_def ..
  from assms(1) obtain tree root_pages nav_html where
    bt: "build_tree (all_pages self) = Inr (Node tree)"
    and sp: "sorted_pages tree = Inr root_pages"
    and sq: "sequence (map F (subfolders tree)) = Inr nav_html"
    and parts: "parts = nav_html @ map G root_pages"
    unfolding eq by (auto split: sum.splits val.splits)
  have sub: "val_pages (Node tree) \<subseteq> set (all_pages self)"
    using bt by (rule build_tree_pages)
  from assms(2) parts consider (folder) "part \<in> set nav_html"
    | (page) p where "p \<in> set root_pages" "part = G p"
    by auto
  then have "\<exists>p\<in>val_pages (Node tree). is_link_of pre p part"
  proof cases
    case page
    from page(1) sorted_pages_sub[OF sp] have "p \<in> val_pages (Node tree)" by blast
    moreover have "is_link_of pre p part" unfolding page(2) G_def by (simp add: is_link_of_def)
    ultimately show ?thesis by blast
  next
    case folder
    from sequence_parts[OF sq folder] obtain a where a: "Inr a \<in> set (map F (subfolders tree))"
      and pa: "part \<in> set a"
      by blast
    from a obtain kv where kv: "kv \<in> set (subfolders tree)" and fa: "F kv = Inr a"
      by auto
    from fa obtain disp inner where
      inner: "render_sublevel (show_bookmarks (conf self)) (snd kv) (slug (fst kv)) 1 pre = Inr inner"
      and a': "a = [Category_open (slug (fst kv)) (get_category_icon (conf self) (fst kv)) disp]
                     @ inner @ [Category_close]"
      unfolding F_def Let_def by (auto split: sum.splits)
    from pa a' have "part = Category_open (slug (fst kv)) (get_category_icon (conf self) (fst kv)) disp
          \<or> part \<in> set inner \<or> part = Category_close" by auto
    with assms(3) have "part \<in> set inner" by (auto simp: is_link_simps)
    from render_sublevel_links[OF inner this assms(3)]
    obtain p where "p \<in> val_pages (snd kv)" "is_link_of pre p part" by blast
    with subfolders_sub[OF kv] show ?thesis by blast
  qed
  with sub show ?thesis unfolding pre by blast
qed

theorem C8_navigation_links_witness:
  "generate_navigation_html_for_depth example_site 2 =
     Inr [Category_open ''01-guides'' ''fas fa-book'' ''Guides'',
          Subcategory_open ''01-guides-sub'' ''Sub'',
          Nav_item ''../../01-guides/sub/a.html'' ''nav-item-depth-2'' ''01-guides-sub-a'' ''A'' True,
          Subcategory_close,
          Nav_item ''../../01-guides/intro.html'' ''nav-item-depth-1'' ''01-guides-intro'' ''Intro'' True,
          Category_close, Root_item ''../../top.html'' ''top'' ''Top'' True]
   \<and> up_segments 2 = ''../../''
   \<and> (\<exists>p\<in>set (all_pages example_site).
          is_link_of (up_segments 2) p
            (Nav_item ''../../01-guides/sub/a.html'' ''nav-item-depth-2'' ''01-guides-sub-a'' ''A'' True))"
proof -
  let ?part = "Nav_item ''../../01-guides/sub/a.html'' ''nav-item-depth-2'' ''01-guides-sub-a'' ''A'' True"
  have nav: "generate_navigation_html_for_depth example_site 2 =
     Inr [Category_open ''01-guides'' ''fas fa-book'' ''Guides'',
          Subcategory_open ''01-guides-sub'' ''Sub'',
          ?part,
          Subcategory_close,
          Nav_item ''../../01-guides/intro.html'' ''nav-item-depth-1'' ''01-guides-intro'' ''Intro'' True,
          Category_close, Root_item ''../../top.html'' ''top'' ''Top'' True]"
    by code_simp
  have up: "up_segments 2 = ''../../''" by code_simp
  have link: "is_link ?part" by (simp add: is_link_def)
  have "\<exists>p\<in>set (all_pages example_site). is_link_of (up_segments (nat 2)) p ?part"
    by (rule C8_navigation_links_prefixed[OF nav _ link]) simp
  then show ?thesis using nav up by simp
qed

section \<open>Category tree\<close>






lemma pages_at_update_Nil:
  "r \<noteq> pages_key \<Longrightarrow> pages_at (Node (AList.update r c d)) [] = pages_at (Node d) []"
  by (simp add: update_conv')

lemma display_at_update_Nil:
  "r \<noteq> display_key \<Longrightarrow> display_at (Node (AList.update r c d)) [] = display_at (Node d) []"
  by (simp add: update_conv')






















lemma hd_prefix_iff:
  "(\<exists>p\<in>set ps. levels_raw p \<noteq> [] \<and> hd (levels_raw p) = r) \<longleftrightarrow>
   (\<exists>p\<in>set ps. prefix [r] (levels_raw p))"
proof -
  have "(x \<noteq> [] \<and> hd x = r) \<longleftrightarrow> prefix [r] x" for x :: "string list"
    by (cases x) auto
  then show ?thesis by simp
qed












lemma scanned_pages_shaped:
  "scanner_shaped
     (\<lambda>n. format_display_name n (strip_prefix (conf self)) (acronyms (conf self))
            (display_overrides (conf self)))
     (scanned_pages e content_dir self)"
  unfolding scanner_shaped_def
proof
  fix p assume "p \<in> set (scanned_pages e content_dir self)"
  from scanned_page_origin[OF this]
  have "fst (process_markdown_file e (conf self) content_dir (relative_path p)) = Inr p" by simp
  from process_markdown_file_fields(3,4)[OF this]
  show "levels p = map (\<lambda>n. format_display_name n (strip_prefix (conf self)) (acronyms (conf self))
            (display_overrides (conf self))) (levels_raw p)"
    by simp
qed





end
